theory Spec2Isabelle
  imports Main "HOL-Library.Word"
begin

section \<open>The mytar archive codec\<close>

text \<open>
  A shallow embedding of \<^verbatim>\<open>mytar.py\<close>: the helper \<^verbatim>\<open>read_exact\<close>, the encoder
  \<^verbatim>\<open>create_archive\<close> and the decoder \<^verbatim>\<open>extract_archive\<close>. Python integers are
  \<open>int\<close>, byte strings are lists of 8-bit words, a Python \<^verbatim>\<open>str\<close> is the list of
  its code points. The system calls of the \<^verbatim>\<open>os\<close> module are functions on an
  explicit state; \<^verbatim>\<open>die\<close> is an error value that ends the run.
\<close>

subsection \<open>Bytes, strings and descriptors\<close>

type_synonym byte = "8 word"
type_synonym bytes = "byte list"
type_synonym pystr = "nat list"

definition BUF_SIZE :: int where
  "BUF_SIZE = 4096"

text \<open>
  A descriptor open for reading holds the bytes not yet delivered. A read on a pipe or
  terminal may hand back fewer bytes than requested, so the descriptor also carries
  the caps of the coming reads: with cap \<open>c\<close> at the head, the next read delivers at
  most \<open>c + 1\<close> bytes. With no cap left a read delivers all it was asked for, as a
  read on a regular file does. A blocking read delivers no byte only at end of file.
\<close>

record rfd =
  unread :: bytes
  caps :: "nat list"

definition os_read :: "rfd \<Rightarrow> int \<Rightarrow> bytes \<times> rfd" where
  "os_read fd n =
     (let k = (case caps fd of [] \<Rightarrow> nat n | c # _ \<Rightarrow> min (nat n) (Suc c))
      in (take k (unread fd), \<lparr>unread = drop k (unread fd), caps = tl (caps fd)\<rparr>))"

subsection \<open>\<^verbatim>\<open>read_exact\<close>\<close>

text \<open>
  \<^verbatim>\<open>
  chunks = []; remaining = n
  while remaining > 0:
      data = os.read(fd, remaining)
      if not data: break
      chunks.append(data); remaining -= len(data)
  return b"".join(chunks)
  \<close>
\<close>

function read_exact_loop :: "rfd \<Rightarrow> int \<Rightarrow> bytes list \<Rightarrow> bytes list \<times> rfd" where
  "read_exact_loop fd remaining chunks =
     (if remaining > 0 then
        (case os_read fd remaining of
           (data, fd') \<Rightarrow>
             if data = [] then (chunks, fd')
             else read_exact_loop fd' (remaining - int (length data)) (chunks @ [data]))
      else (chunks, fd))"
  by pat_completeness auto
termination
  by (relation "measure (\<lambda>(fd, remaining, chunks). nat remaining)") auto

declare read_exact_loop.simps [simp del]

definition read_exact :: "rfd \<Rightarrow> int \<Rightarrow> bytes \<times> rfd" where
  "read_exact fd n = (case read_exact_loop fd n [] of (chunks, fd') \<Rightarrow> (concat chunks, fd'))"

subsection \<open>Integers in fixed-width fields\<close>

text \<open>
  \<^verbatim>\<open>v.to_bytes(k, 'big')\<close> raises OverflowError when \<open>v\<close> is negative or does not fit
  \<open>k\<close> bytes; \<^verbatim>\<open>int.from_bytes(bs, 'big')\<close> reads any byte string as an unsigned
  number.
\<close>

fun big_endian :: "nat \<Rightarrow> nat \<Rightarrow> bytes" where
  "big_endian 0 v = []"
| "big_endian (Suc k) v = big_endian k (v div 256) @ [of_nat (v mod 256)]"

definition to_bytes :: "int \<Rightarrow> nat \<Rightarrow> bytes option" where
  "to_bytes v k = (if v < 0 \<or> 256 ^ k \<le> v then None else Some (big_endian k (nat v)))"

definition from_bytes :: "bytes \<Rightarrow> int" where
  "from_bytes bs = foldl (\<lambda>acc b. acc * 256 + uint b) 0 bs"

subsection \<open>UTF-8\<close>

text \<open>
  \<^verbatim>\<open>name.encode('utf-8')\<close> raises UnicodeEncodeError on a surrogate code point
  (\<open>None\<close> here). A Python string holds no code point above \<open>0x10FFFF\<close>; the model
  refuses those as well.
\<close>

definition utf8_char :: "nat \<Rightarrow> bytes option" where
  "utf8_char c =
     (if c < 0x80 then Some [of_nat c]
      else if c < 0x800 then Some [of_nat (0xC0 + c div 64), of_nat (0x80 + c mod 64)]
      else if 0xD800 \<le> c \<and> c \<le> 0xDFFF then None
      else if c < 0x10000 then
        Some [of_nat (0xE0 + c div 4096), of_nat (0x80 + c div 64 mod 64),
              of_nat (0x80 + c mod 64)]
      else if c < 0x110000 then
        Some [of_nat (0xF0 + c div 262144), of_nat (0x80 + c div 4096 mod 64),
              of_nat (0x80 + c div 64 mod 64), of_nat (0x80 + c mod 64)]
      else None)"

fun utf8_encode :: "pystr \<Rightarrow> bytes option" where
  "utf8_encode [] = Some []"
| "utf8_encode (c # cs) =
     (case utf8_char c of
        None \<Rightarrow> None
      | Some b \<Rightarrow> (case utf8_encode cs of None \<Rightarrow> None | Some bs \<Rightarrow> Some (b @ bs)))"

text \<open>
  \<^verbatim>\<open>name_bytes.decode('utf-8')\<close> is the strict decoder: it raises UnicodeDecodeError
  (\<open>None\<close> here) on a stray continuation byte, a truncated sequence, an overlong form, a
  surrogate and a value above \<open>0x10FFFF\<close>.
\<close>

definition is_cont :: "byte \<Rightarrow> bool" where
  "is_cont b = (0x80 \<le> unat b \<and> unat b < 0xC0)"

definition payload :: "byte \<Rightarrow> nat" where
  "payload b = unat b - 0x80"

fun utf8_decode :: "bytes \<Rightarrow> pystr option" where
  "utf8_decode [] = Some []"
| "utf8_decode (b0 # bs) =
     (if unat b0 < 0x80 then
        (case utf8_decode bs of None \<Rightarrow> None | Some cs \<Rightarrow> Some (unat b0 # cs))
      else if unat b0 < 0xC0 then None
      else if unat b0 < 0xE0 then
        (case bs of
           b1 # r \<Rightarrow>
             if is_cont b1 \<and> 0x80 \<le> (unat b0 - 0xC0) * 64 + payload b1 then
               (case utf8_decode r of
                  None \<Rightarrow> None
                | Some cs \<Rightarrow> Some (((unat b0 - 0xC0) * 64 + payload b1) # cs))
             else None
         | _ \<Rightarrow> None)
      else if unat b0 < 0xF0 then
        (case bs of
           b1 # b2 # r \<Rightarrow>
             if is_cont b1 \<and> is_cont b2
                \<and> 0x800 \<le> (unat b0 - 0xE0) * 4096 + payload b1 * 64 + payload b2
                \<and> \<not> (0xD800 \<le> (unat b0 - 0xE0) * 4096 + payload b1 * 64 + payload b2
                      \<and> (unat b0 - 0xE0) * 4096 + payload b1 * 64 + payload b2 \<le> 0xDFFF) then
               (case utf8_decode r of
                  None \<Rightarrow> None
                | Some cs \<Rightarrow>
                    Some (((unat b0 - 0xE0) * 4096 + payload b1 * 64 + payload b2) # cs))
             else None
         | _ \<Rightarrow> None)
      else if unat b0 < 0xF8 then
        (case bs of
           b1 # b2 # b3 # r \<Rightarrow>
             if is_cont b1 \<and> is_cont b2 \<and> is_cont b3
                \<and> 0x10000 \<le> (unat b0 - 0xF0) * 262144 + payload b1 * 4096
                                + payload b2 * 64 + payload b3
                \<and> (unat b0 - 0xF0) * 262144 + payload b1 * 4096
                     + payload b2 * 64 + payload b3 < 0x110000 then
               (case utf8_decode r of
                  None \<Rightarrow> None
                | Some cs \<Rightarrow>
                    Some (((unat b0 - 0xF0) * 262144 + payload b1 * 4096
                           + payload b2 * 64 + payload b3) # cs))
             else None
         | _ \<Rightarrow> None)
      else None)"

subsection \<open>Fatal errors\<close>

text \<open>
  \<^verbatim>\<open>die(msg)\<close> prints one line and ends the process with status 1. Each call site is
  a constructor; the ones that name a file carry the name. An exception that the program
  does not catch ends the process as well, with a traceback.
\<close>

datatype exn = UnicodeEncodeError | OverflowError | ValueError

datatype error =
    CannotOpenFile pystr             \<comment> \<open>\<^verbatim>\<open>cannot open file '{name}'\<close>\<close>
  | CannotStatFile pystr             \<comment> \<open>\<^verbatim>\<open>cannot stat file '{name}'\<close>\<close>
  | UnexpectedEOFReading pystr       \<comment> \<open>\<^verbatim>\<open>unexpected EOF reading '{name}'\<close>\<close>
  | IncompleteFilenameLength         \<comment> \<open>\<^verbatim>\<open>corrupted archive (incomplete filename length)\<close>\<close>
  | InvalidFilenameLength            \<comment> \<open>\<^verbatim>\<open>corrupted archive (invalid filename length)\<close>\<close>
  | IncompleteFilename               \<comment> \<open>\<^verbatim>\<open>corrupted archive (incomplete filename)\<close>\<close>
  | FilenameEncoding                 \<comment> \<open>\<^verbatim>\<open>corrupted archive (filename encoding)\<close>\<close>
  | IncompleteFileSize               \<comment> \<open>\<^verbatim>\<open>corrupted archive (incomplete file size)\<close>\<close>
  | InvalidFileSize                  \<comment> \<open>\<^verbatim>\<open>corrupted archive (invalid file size)\<close>\<close>
  | CannotCreateOutputFile pystr     \<comment> \<open>\<^verbatim>\<open>cannot create output file '{name}'\<close>\<close>
  | UnexpectedEOFInFileData          \<comment> \<open>\<^verbatim>\<open>corrupted archive (unexpected EOF in file data)\<close>\<close>
  | Traceback exn

subsection \<open>The content-transfer loop\<close>

text \<open>
  Both \<^verbatim>\<open>create_archive\<close> (lines 64 to 71) and \<^verbatim>\<open>extract_archive\<close> (lines 117 to
  124) end a record with the same loop, from a descriptor open for reading to one open
  for writing:
  \<^verbatim>\<open>
  remaining = size
  while remaining > 0:
      chunk = os.read(fd, min(BUF_SIZE, remaining))
      if not chunk: os.close(...); die(...)
      os.write(out_fd, chunk)
      remaining -= len(chunk)
  \<close>
  The sink is the byte string written so far; \<^verbatim>\<open>os.write\<close> appends the whole chunk.
  The loop also logs every read: what was left to transfer, the size requested and the
  size of the chunk that came back. The log is not in the source and nothing reads it.
  The result is \<open>False\<close> where the source closes and dies.
\<close>

type_synonym read_log = "(int \<times> int \<times> nat) list"

function copy_contents ::
  "rfd \<Rightarrow> int \<Rightarrow> bytes \<Rightarrow> read_log \<Rightarrow> bool \<times> rfd \<times> bytes \<times> read_log" where
  "copy_contents fd remaining sink lg =
     (if remaining > 0 then
        (case os_read fd (min BUF_SIZE remaining) of
           (chunk, fd') \<Rightarrow>
             if chunk = [] then
               (False, fd', sink, lg @ [(remaining, min BUF_SIZE remaining, length chunk)])
             else
               copy_contents fd' (remaining - int (length chunk)) (sink @ chunk)
                 (lg @ [(remaining, min BUF_SIZE remaining, length chunk)]))
      else (True, fd, sink, lg))"
  by pat_completeness auto
termination
  by (relation "measure (\<lambda>(fd, remaining, sink, lg). nat remaining)") auto

declare copy_contents.simps [simp del]

subsection \<open>The encoder\<close>

text \<open>
  The files to archive: \<^verbatim>\<open>os.open(name, O_RDONLY)\<close> raises OSError on a name the map
  does not hold, and on the empty name; it raises ValueError, which the program does not
  catch, on a name with a NUL. An open file gives the size \<^verbatim>\<open>os.fstat\<close> reports
  (\<open>None\<close>: fstat raises OSError) and the descriptor its reads come from. The reported
  size and the bytes that can be read are separate, as another process may change the
  file in between.
\<close>

record src_file =
  st_size :: "int option"
  content :: rfd

type_synonym src_fs = "pystr \<Rightarrow> src_file option"

definition open_rdonly :: "src_fs \<Rightarrow> pystr \<Rightarrow> error + src_file" where
  "open_rdonly fs name =
     (if 0 \<in> set name then Inl (Traceback ValueError)
      else if name = [] then Inl (CannotOpenFile name)
      else (case fs name of None \<Rightarrow> Inl (CannotOpenFile name) | Some f \<Rightarrow> Inr f))"

text \<open>
  The state of the encoder: the bytes written to standard output, the source files it
  holds open, and the log of the reads of the content-transfer loop.
\<close>

record enc_state =
  out :: bytes
  held :: "pystr list"
  enc_reads :: read_log

definition hold :: "pystr \<Rightarrow> enc_state \<Rightarrow> enc_state" where
  "hold name s = s\<lparr>held := name # held s\<rparr>"

definition release :: "pystr \<Rightarrow> enc_state \<Rightarrow> enc_state" where
  "release name s = s\<lparr>held := remove1 name (held s)\<rparr>"

definition emit :: "bytes \<Rightarrow> enc_state \<Rightarrow> enc_state" where
  "emit bs s = s\<lparr>out := out s @ bs\<rparr>"

text \<open>
  The body of the \<^verbatim>\<open>for name in filenames\<close> loop. An uncaught exception leaves the
  descriptor open; both ends of the content-transfer loop close it, and so does the
  failure of fstat.
\<close>

definition archive_file :: "src_fs \<Rightarrow> pystr \<Rightarrow> enc_state \<Rightarrow> enc_state \<times> error option" where
  "archive_file fs name s =
     (case open_rdonly fs name of
        Inl e \<Rightarrow> (s, Some e)
      | Inr f \<Rightarrow>
          (case st_size f of
             None \<Rightarrow> (release name (hold name s), Some (CannotStatFile name))
           | Some sz \<Rightarrow>
               (case utf8_encode name of
                  None \<Rightarrow> (hold name s, Some (Traceback UnicodeEncodeError))
                | Some name_bytes \<Rightarrow>
                    (case to_bytes (int (length name_bytes)) 4 of
                       None \<Rightarrow> (hold name s, Some (Traceback OverflowError))
                     | Some len4 \<Rightarrow>
                         (case to_bytes sz 8 of
                            None \<Rightarrow>
                              (emit name_bytes (emit len4 (hold name s)),
                               Some (Traceback OverflowError))
                          | Some size8 \<Rightarrow>
                              (case copy_contents (content f) sz
                                      (out (emit size8 (emit name_bytes (emit len4 s))))
                                      (enc_reads s) of
                                 (ok, fd', sink, lg) \<Rightarrow>
                                   (release name ((hold name s)\<lparr>out := sink, enc_reads := lg\<rparr>),
                                    if ok then None
                                    else Some (UnexpectedEOFReading name))))))))"

fun create_archive :: "src_fs \<Rightarrow> pystr list \<Rightarrow> enc_state \<Rightarrow> enc_state \<times> error option" where
  "create_archive fs [] s = (s, None)"
| "create_archive fs (name # filenames) s =
     (case archive_file fs name s of
        (s', Some e) \<Rightarrow> (s', Some e)
      | (s', None) \<Rightarrow> create_archive fs filenames s')"

subsection \<open>What the reading loops deliver\<close>

lemma os_read_fst: "fst (os_read fd n) = take (length (fst (os_read fd n))) (unread fd)"
  by (auto simp add: os_read_def Let_def min_def split: list.splits)

lemma os_read_unread:
  "unread (snd (os_read fd n)) = drop (length (fst (os_read fd n))) (unread fd)"
  by (auto simp add: os_read_def Let_def min_def split: list.splits)

lemma os_read_len: "length (fst (os_read fd n)) \<le> nat n"
  by (auto simp add: os_read_def Let_def split: list.splits)

lemma os_read_empty: "0 < n \<Longrightarrow> fst (os_read fd n) = [] \<longleftrightarrow> unread fd = []"
  by (auto simp add: os_read_def Let_def split: list.splits)

lemma read_exact_loop_spec:
  "read_exact_loop fd n chunks = (cs, fd') \<Longrightarrow>
     concat cs = concat chunks @ take (nat n) (unread fd) \<and>
     unread fd' = drop (nat n) (unread fd)"
proof (induction fd n chunks arbitrary: cs fd' rule: read_exact_loop.induct)
  case (1 fd remaining chunks)
  show ?case
  proof (cases "remaining > 0")
    case False
    with "1.prems" show ?thesis by (simp add: read_exact_loop.simps[of fd remaining])
  next
    case True
    obtain data fd1 where r: "os_read fd remaining = (data, fd1)"
      by (cases "os_read fd remaining")
    have d: "data = take (length data) (unread fd)"
      using os_read_fst[of fd remaining] r by simp
    have u: "unread fd1 = drop (length data) (unread fd)"
      using os_read_unread[of fd remaining] r by simp
    have l: "length data \<le> nat remaining"
      using os_read_len[of fd remaining] r by simp
    show ?thesis
    proof (cases "data = []")
      case True
      then have "unread fd = []"
        using os_read_empty[of remaining fd] r \<open>remaining > 0\<close> by simp
      with True r \<open>remaining > 0\<close> "1.prems" u show ?thesis
        by (simp add: read_exact_loop.simps[of fd remaining])
    next
      case False
      have rec: "read_exact_loop fd1 (remaining - int (length data)) (chunks @ [data]) = (cs, fd')"
        using "1.prems" r True False by (simp add: read_exact_loop.simps[of fd remaining])
      from "1.IH"[OF True r[symmetric] False rec]
      have ih: "concat cs = concat (chunks @ [data])
                  @ take (nat (remaining - int (length data))) (unread fd1)"
        and ih2: "unread fd' = drop (nat (remaining - int (length data))) (unread fd1)"
        by auto
      have n: "nat remaining = length data + nat (remaining - int (length data))"
        using l True by linarith
      have "take (nat remaining) (unread fd) = take (length data) (unread fd)
              @ take (nat (remaining - int (length data))) (drop (length data) (unread fd))"
        by (subst n) (simp add: take_add)
      moreover have "drop (nat remaining) (unread fd)
              = drop (nat (remaining - int (length data))) (drop (length data) (unread fd))"
        by (subst n) (simp add: add.commute)
      ultimately show ?thesis using ih ih2 d u by simp
    qed
  qed
qed

lemma read_exact_fst: "fst (read_exact fd n) = take (nat n) (unread fd)"
proof -
  obtain cs fd' where r: "read_exact_loop fd n [] = (cs, fd')"
    by (cases "read_exact_loop fd n []")
  from read_exact_loop_spec[OF r] r show ?thesis by (simp add: read_exact_def)
qed

lemma read_exact_unread: "unread (snd (read_exact fd n)) = drop (nat n) (unread fd)"
proof -
  obtain cs fd' where r: "read_exact_loop fd n [] = (cs, fd')"
    by (cases "read_exact_loop fd n []")
  from read_exact_loop_spec[OF r] r show ?thesis by (simp add: read_exact_def)
qed

lemma copy_contents_spec:
  "copy_contents fd n sink lg = (ok, fd', sink', lg') \<Longrightarrow>
     sink' = sink @ take (nat n) (unread fd) \<and>
     unread fd' = drop (nat n) (unread fd) \<and>
     ok = (nat n \<le> length (unread fd))"
proof (induction fd n sink lg arbitrary: ok fd' sink' lg' rule: copy_contents.induct)
  case (1 fd remaining sink lg)
  show ?case
  proof (cases "remaining > 0")
    case False
    with "1.prems" show ?thesis by (simp add: copy_contents.simps[of fd remaining])
  next
    case True
    define req where "req = min BUF_SIZE remaining"
    have req: "0 < req" "req \<le> remaining"
      using True by (simp_all add: req_def BUF_SIZE_def)
    obtain chunk fd1 where r: "os_read fd req = (chunk, fd1)"
      by (cases "os_read fd req")
    have d: "chunk = take (length chunk) (unread fd)"
      using os_read_fst[of fd req] r by simp
    have u: "unread fd1 = drop (length chunk) (unread fd)"
      using os_read_unread[of fd req] r by simp
    have l: "length chunk \<le> nat remaining"
      using os_read_len[of fd req] r req by simp
    show ?thesis
    proof (cases "chunk = []")
      case True
      then have "unread fd = []"
        using os_read_empty[of req fd] r req by simp
      with True r \<open>remaining > 0\<close> "1.prems" u show ?thesis
        by (simp add: req_def copy_contents.simps[of fd remaining])
    next
      case False
      let ?lg = "lg @ [(remaining, req, length chunk)]"
      have rec: "copy_contents fd1 (remaining - int (length chunk)) (sink @ chunk) ?lg
                   = (ok, fd', sink', lg')"
        using "1.prems" r True False
        by (simp add: req_def copy_contents.simps[of fd remaining])
      from "1.IH"[OF True r[unfolded req_def, symmetric] False rec[unfolded req_def]]
      have ih: "sink' = (sink @ chunk)
                  @ take (nat (remaining - int (length chunk))) (unread fd1)"
        and ih2: "unread fd' = drop (nat (remaining - int (length chunk))) (unread fd1)"
        and ih3: "ok = (nat (remaining - int (length chunk)) \<le> length (unread fd1))"
        by auto
      have n: "nat remaining = length chunk + nat (remaining - int (length chunk))"
        using l True by linarith
      have "take (nat remaining) (unread fd) = take (length chunk) (unread fd)
              @ take (nat (remaining - int (length chunk))) (drop (length chunk) (unread fd))"
        by (subst n) (simp add: take_add)
      moreover have "drop (nat remaining) (unread fd)
              = drop (nat (remaining - int (length chunk))) (drop (length chunk) (unread fd))"
        by (subst n) (simp add: add.commute)
      moreover have "length chunk \<le> length (unread fd)"
        using d by (metis length_take min.cobounded1)
      ultimately show ?thesis using ih ih2 ih3 d u n by auto
    qed
  qed
qed

subsection \<open>The decoder\<close>

text \<open>
  The state of the decoder: standard input, the files it has created in order of
  creation, each with the bytes written to it, and the log of the reads of the
  content-transfer loop. \<^verbatim>\<open>os.open(name, O_WRONLY | O_CREAT | O_TRUNC, 0o644)\<close> gives an
  empty file, or raises OSError where the file system refuses the name (the predicate
  \<open>writable\<close>), or ValueError on a name with a NUL. The source closes the output file
  on both ways out of the content-transfer loop and never removes a file.
\<close>

record dec_state =
  inp :: rfd
  disk :: "(pystr \<times> bytes) list"
  dec_reads :: read_log

datatype step = Next | Finished | Died error

definition open_trunc :: "(pystr \<Rightarrow> bool) \<Rightarrow> pystr \<Rightarrow> error option" where
  "open_trunc writable name =
     (if 0 \<in> set name then Some (Traceback ValueError)
      else if name = [] \<or> \<not> writable name then Some (CannotCreateOutputFile name)
      else None)"

text \<open>The body of the \<^verbatim>\<open>while True\<close> loop.\<close>

definition extract_record :: "(pystr \<Rightarrow> bool) \<Rightarrow> dec_state \<Rightarrow> dec_state \<times> step" where
  "extract_record writable st =
     (case read_exact (inp st) 4 of
        (raw_len, fd1) \<Rightarrow>
          if length raw_len = 0 then (st\<lparr>inp := fd1\<rparr>, Finished)
          else if length raw_len < 4 then (st\<lparr>inp := fd1\<rparr>, Died IncompleteFilenameLength)
          else if from_bytes raw_len \<le> 0 then (st\<lparr>inp := fd1\<rparr>, Died InvalidFilenameLength)
          else
            (case read_exact fd1 (from_bytes raw_len) of
               (name_bytes, fd2) \<Rightarrow>
                 if int (length name_bytes) < from_bytes raw_len then
                   (st\<lparr>inp := fd2\<rparr>, Died IncompleteFilename)
                 else
                   (case utf8_decode name_bytes of
                      None \<Rightarrow> (st\<lparr>inp := fd2\<rparr>, Died FilenameEncoding)
                    | Some name \<Rightarrow>
                        (case read_exact fd2 8 of
                           (raw_size, fd3) \<Rightarrow>
                             if length raw_size < 8 then
                               (st\<lparr>inp := fd3\<rparr>, Died IncompleteFileSize)
                             else if from_bytes raw_size < 0 then
                               (st\<lparr>inp := fd3\<rparr>, Died InvalidFileSize)
                             else
                               (case open_trunc writable name of
                                  Some e \<Rightarrow> (st\<lparr>inp := fd3\<rparr>, Died e)
                                | None \<Rightarrow>
                                    (case copy_contents fd3 (from_bytes raw_size) []
                                            (dec_reads st) of
                                       (ok, fd4, sink, lg) \<Rightarrow>
                                         (\<lparr>inp = fd4, disk = disk st @ [(name, sink)],
                                           dec_reads = lg\<rparr>,
                                          if ok then Next
                                          else Died UnexpectedEOFInFileData)))))))"

lemma extract_record_consumes:
  assumes "extract_record writable st = (st', Next)"
  shows "length (unread (inp st')) < length (unread (inp st))"
proof -
  obtain raw_len fd1 where r1: "read_exact (inp st) 4 = (raw_len, fd1)"
    by (cases "read_exact (inp st) 4")
  have l1: "raw_len = take 4 (unread (inp st))"
    using read_exact_fst[of "inp st" 4] r1 by simp
  have u1: "unread fd1 = drop 4 (unread (inp st))"
    using read_exact_unread[of "inp st" 4] r1 by simp
  obtain name_bytes fd2 where r2: "read_exact fd1 (from_bytes raw_len) = (name_bytes, fd2)"
    by (cases "read_exact fd1 (from_bytes raw_len)")
  have u2: "length (unread fd2) \<le> length (unread fd1)"
    using read_exact_unread[of fd1 "from_bytes raw_len"] r2 by simp
  obtain raw_size fd3 where r3: "read_exact fd2 8 = (raw_size, fd3)"
    by (cases "read_exact fd2 8")
  have u3: "length (unread fd3) \<le> length (unread fd2)"
    using read_exact_unread[of fd2 8] r3 by simp
  obtain ok fd4 sink lg where
    r4: "copy_contents fd3 (from_bytes raw_size) [] (dec_reads st) = (ok, fd4, sink, lg)"
    by (cases "copy_contents fd3 (from_bytes raw_size) [] (dec_reads st)")
  have u4: "length (unread fd4) \<le> length (unread fd3)"
    using copy_contents_spec[OF r4] by simp
  have "length raw_len \<le> 4"
    using l1 by simp
  moreover from assms r1 r2 r3 r4 have "\<not> length raw_len < 4" and "inp st' = fd4"
    by (auto simp: extract_record_def split: if_splits option.splits)
  ultimately show ?thesis
    using l1 u1 u2 u3 u4 by auto
qed

function extract_archive :: "(pystr \<Rightarrow> bool) \<Rightarrow> dec_state \<Rightarrow> dec_state \<times> error option" where
  "extract_archive writable st =
     (case extract_record writable st of
        (st', Finished) \<Rightarrow> (st', None)
      | (st', Died e) \<Rightarrow> (st', Some e)
      | (st', Next) \<Rightarrow> extract_archive writable st')"
  by pat_completeness auto
termination
  by (relation "measure (\<lambda>(writable, st). length (unread (inp st)))")
     (auto dest: extract_record_consumes[OF sym])

declare extract_archive.simps [simp del]

text \<open>The same loop with the recursive call under a test, for evaluation.\<close>

lemma extract_archive_code [code]:
  "extract_archive writable st =
     (case extract_record writable st of
        (st', r) \<Rightarrow>
          if r = Next then extract_archive writable st'
          else (st', case r of Died e \<Rightarrow> Some e | _ \<Rightarrow> None))"
  by (subst extract_archive.simps) (simp split: prod.splits step.splits)


subsection \<open>The format on the wire\<close>

text \<open>
  The layout of one record as the data model of the format gives it: the length of the
  name in 4 bytes, the name, the length of the content in 8 bytes, the content. A record
  is storable when its fields fit their widths, its name is not empty and decodes, and
  the file system lets the decoder create a file of that name.
\<close>

definition record_bytes :: "bytes \<Rightarrow> bytes \<Rightarrow> bytes" where
  "record_bytes name_bytes body =
     big_endian 4 (length name_bytes) @ name_bytes @ big_endian 8 (length body) @ body"

definition stored_name :: "bytes \<Rightarrow> pystr" where
  "stored_name name_bytes = (case utf8_decode name_bytes of None \<Rightarrow> [] | Some name \<Rightarrow> name)"

definition storable :: "(pystr \<Rightarrow> bool) \<Rightarrow> bytes \<times> bytes \<Rightarrow> bool" where
  "storable writable r =
     (case r of
        (name_bytes, body) \<Rightarrow>
          name_bytes \<noteq> [] \<and> length name_bytes < 2 ^ 32 \<and> length body < 2 ^ 64 \<and>
          (case utf8_decode name_bytes of
             None \<Rightarrow> False
           | Some name \<Rightarrow> open_trunc writable name = None))"

text \<open>
  What the log of the content-transfer loop should show of every read: the size
  requested is \<open>min BUF_SIZE remaining\<close>, and the chunk that came back is no longer
  than the request, hence no longer than the buffer of 4096 bytes.
\<close>

definition bounded_read :: "int \<times> int \<times> nat \<Rightarrow> bool" where
  "bounded_read e =
     (case e of
        (remaining, requested, got) \<Rightarrow>
          requested = min 4096 remaining \<and> int got \<le> requested \<and> got \<le> 4096)"


text \<open>
  The files the round trip is stated for. A name can be archived when \<^verbatim>\<open>os.open\<close> takes
  it (not empty, no NUL, a file of that name exists), the size fstat reports is the
  number of bytes the file holds (nobody changes it meanwhile) and fits the 8-byte
  field, and the name encodes to UTF-8 in fewer than \<open>2 ^ 32\<close> bytes. The contents of
  a file are the bytes its descriptor has to read.
\<close>

definition contents_of :: "src_fs \<Rightarrow> pystr \<Rightarrow> bytes" where
  "contents_of fs name = (case fs name of None \<Rightarrow> [] | Some f \<Rightarrow> unread (content f))"

definition encoded_name :: "pystr \<Rightarrow> bytes" where
  "encoded_name name = (case utf8_encode name of None \<Rightarrow> [] | Some nb \<Rightarrow> nb)"

definition archivable :: "src_fs \<Rightarrow> pystr \<Rightarrow> bool" where
  "archivable fs name =
     (name \<noteq> [] \<and> 0 \<notin> set name \<and>
      (case fs name of
         None \<Rightarrow> False
       | Some f \<Rightarrow>
           st_size f = Some (int (length (unread (content f)))) \<and>
           length (unread (content f)) < 2 ^ 64) \<and>
      (case utf8_encode name of None \<Rightarrow> False | Some nb \<Rightarrow> length nb < 2 ^ 32))"


subsection \<open>Fixed-width integers\<close>

lemma unat_byte: "n < 256 \<Longrightarrow> unat (of_nat n :: byte) = n"
  by (simp add: unat_of_nat)

lemma length_big_endian: "length (big_endian k v) = k"
  by (induction k arbitrary: v) auto

lemma from_bytes_append: "from_bytes (xs @ [b]) = from_bytes xs * 256 + uint b"
  by (simp add: from_bytes_def)

lemma from_bytes_big_endian: "from_bytes (big_endian k v) = int (v mod 256 ^ k)"
proof (induction k arbitrary: v)
  case 0
  show ?case by (simp add: from_bytes_def)
next
  case (Suc k)
  have b: "uint (of_nat (v mod 256) :: byte) = int (v mod 256)"
    by (simp add: uint_nat unat_byte)
  have "from_bytes (big_endian (Suc k) v)
          = int ((v div 256) mod 256 ^ k) * 256 + int (v mod 256)"
    by (simp add: from_bytes_append Suc.IH b)
  also have "\<dots> = int (v mod 256 ^ Suc k)"
    by (simp add: mod_mult2_eq add.commute mult.commute)
  finally show ?case .
qed

lemma from_bytes_nonneg: "0 \<le> from_bytes bs"
proof -
  have "0 \<le> a \<Longrightarrow> 0 \<le> foldl (\<lambda>acc b. acc * 256 + uint b) a bs" for a :: int
    by (induction bs arbitrary: a) auto
  then show ?thesis by (simp add: from_bytes_def)
qed

lemma from_bytes_not_neg [simp]: "from_bytes bs < 0 \<longleftrightarrow> False"
  using from_bytes_nonneg[of bs] by simp


subsection \<open>One turn of the decoder\<close>

lemma read_exact_cases:
  obtains fd' where "read_exact fd n = (take (nat n) (unread fd), fd')"
    and "unread fd' = drop (nat n) (unread fd)"
  using read_exact_fst[of fd n] read_exact_unread[of fd n]
  by (cases "read_exact fd n") auto

lemma copy_contents_cases:
  obtains fd' lg' where
    "copy_contents fd n sink lg =
       (nat n \<le> length (unread fd), fd', sink @ take (nat n) (unread fd), lg')"
    and "unread fd' = drop (nat n) (unread fd)"
proof -
  obtain ok fd' sink' lg' where c: "copy_contents fd n sink lg = (ok, fd', sink', lg')"
    by (cases "copy_contents fd n sink lg")
  from copy_contents_spec[OF c] c that show ?thesis by blast
qed

lemma extract_record_eof:
  assumes "unread (inp st) = []"
  shows "snd (extract_record writable st) = Finished \<and>
         disk (fst (extract_record writable st)) = disk st"
proof -
  obtain fd1 where "read_exact (inp st) 4 = (take (nat 4) (unread (inp st)), fd1)"
    by (rule read_exact_cases)
  with assms show ?thesis by (simp add: extract_record_def)
qed

lemma extract_record_short_length:
  assumes "unread (inp st) \<noteq> []" and "length (unread (inp st)) < 4"
  shows "snd (extract_record writable st) = Died IncompleteFilenameLength \<and>
         disk (fst (extract_record writable st)) = disk st"
proof -
  obtain fd1 where "read_exact (inp st) 4 = (take (nat 4) (unread (inp st)), fd1)"
    by (rule read_exact_cases)
  with assms show ?thesis by (simp add: extract_record_def)
qed

lemma extract_record_zero_length:
  assumes "4 \<le> length (unread (inp st))" and "from_bytes (take 4 (unread (inp st))) = 0"
  shows "snd (extract_record writable st) = Died InvalidFilenameLength \<and>
         disk (fst (extract_record writable st)) = disk st"
proof -
  obtain fd1 where "read_exact (inp st) 4 = (take (nat 4) (unread (inp st)), fd1)"
    by (rule read_exact_cases)
  with assms show ?thesis by (auto simp add: extract_record_def)
qed

lemma extract_archive_stops:
  assumes "snd (extract_record writable st) \<noteq> Next"
  shows "extract_archive writable st =
           (fst (extract_record writable st),
            case snd (extract_record writable st) of Died e \<Rightarrow> Some e | _ \<Rightarrow> None)"
  using assms
  by (subst extract_archive.simps) (auto split: prod.splits step.splits)

lemma extract_archive_next:
  assumes "extract_record writable st = (st', Next)"
  shows "extract_archive writable st = extract_archive writable st'"
  using assms by (subst extract_archive.simps) simp

lemma extract_record_on_record:
  assumes u: "unread (inp st) = raw_len @ name_bytes @ raw_size @ body"
    and l4: "length raw_len = 4"
    and nl: "from_bytes raw_len = int (length name_bytes)"
    and ne: "name_bytes \<noteq> []"
    and nm: "utf8_decode name_bytes = Some name"
    and l8: "length raw_size = 8"
    and op: "open_trunc writable name = None"
  shows "\<exists>fd lg. extract_record writable st =
           (\<lparr>inp = fd, disk = disk st @ [(name, take (nat (from_bytes raw_size)) body)],
             dec_reads = lg\<rparr>,
            if nat (from_bytes raw_size) \<le> length body then Next
            else Died UnexpectedEOFInFileData) \<and>
           unread fd = drop (nat (from_bytes raw_size)) body"
proof -
  obtain fd1 where r1: "read_exact (inp st) 4 = (take (nat 4) (unread (inp st)), fd1)"
    and u1: "unread fd1 = drop (nat 4) (unread (inp st))"
    by (rule read_exact_cases)
  have t1: "take (nat 4) (unread (inp st)) = raw_len" and d1: "unread fd1 = name_bytes @ raw_size @ body"
    using u l4 u1 by simp_all
  obtain fd2 where r2: "read_exact fd1 (from_bytes raw_len) = (take (nat (from_bytes raw_len)) (unread fd1), fd2)"
    and u2: "unread fd2 = drop (nat (from_bytes raw_len)) (unread fd1)"
    by (rule read_exact_cases)
  have t2: "take (nat (from_bytes raw_len)) (unread fd1) = name_bytes" and d2: "unread fd2 = raw_size @ body"
    using d1 nl u2 by simp_all
  obtain fd3 where r3: "read_exact fd2 8 = (take (nat 8) (unread fd2), fd3)"
    and u3: "unread fd3 = drop (nat 8) (unread fd2)"
    by (rule read_exact_cases)
  have t3: "take (nat 8) (unread fd2) = raw_size" and d3: "unread fd3 = body"
    using d2 l8 u3 by simp_all
  obtain fd4 lg where r4: "copy_contents fd3 (from_bytes raw_size) [] (dec_reads st) =
       (nat (from_bytes raw_size) \<le> length (unread fd3), fd4, [] @ take (nat (from_bytes raw_size)) (unread fd3), lg)"
    and u4: "unread fd4 = drop (nat (from_bytes raw_size)) (unread fd3)"
    by (rule copy_contents_cases)
  have pos: "\<not> from_bytes raw_len \<le> 0" using nl ne by simp
  have ne4: "raw_len \<noteq> []" using l4 by auto
  show ?thesis
    unfolding extract_record_def
    using r1 t1 l4 ne4 pos r2 t2 nl nm r3 t3 l8 op r4 d3 u4
    by simp
qed

subsection \<open>The decoder on whole records\<close>

lemma extract_record_record_bytes:
  assumes s: "storable writable (name_bytes, body)"
    and u: "unread (inp st) = record_bytes name_bytes body @ rest"
  shows "\<exists>fd lg. extract_record writable st =
           (\<lparr>inp = fd, disk = disk st @ [(stored_name name_bytes, body)], dec_reads = lg\<rparr>, Next)
           \<and> unread fd = rest"
proof -
  from s obtain name where nm: "utf8_decode name_bytes = Some name"
    and op: "open_trunc writable name = None"
    and ne: "name_bytes \<noteq> []" and l32: "length name_bytes < 2 ^ 32"
    and l64: "length body < 2 ^ 64"
    by (auto simp: storable_def split: option.splits)
  have f4: "from_bytes (big_endian 4 (length name_bytes)) = int (length name_bytes)"
    using l32 by (simp add: from_bytes_big_endian)
  have f8: "from_bytes (big_endian 8 (length body)) = int (length body)"
    using l64 by (simp add: from_bytes_big_endian)
  have u': "unread (inp st) = big_endian 4 (length name_bytes) @ name_bytes
              @ big_endian 8 (length body) @ (body @ rest)"
    using u by (simp add: record_bytes_def)
  from extract_record_on_record[OF u' length_big_endian f4 ne nm length_big_endian op]
  show ?thesis
    by (simp add: f8 stored_name_def nm)
qed

lemma extract_archive_records:
  assumes "\<forall>r \<in> set recs. storable writable r"
    and "unread (inp st) = concat (map (\<lambda>(n, b). record_bytes n b) recs) @ rest"
  shows "\<exists>st'. extract_archive writable st = extract_archive writable st' \<and>
               unread (inp st') = rest \<and>
               disk st' = disk st @ map (\<lambda>(n, b). (stored_name n, b)) recs"
  using assms
proof (induction recs arbitrary: st)
  case Nil
  then show ?case by auto
next
  case (Cons r recs)
  obtain n b where r: "r = (n, b)" by (cases r)
  have s: "storable writable (n, b)" using Cons.prems(1) r by simp
  have u: "unread (inp st) = record_bytes n b
             @ (concat (map (\<lambda>(n, b). record_bytes n b) recs) @ rest)"
    using Cons.prems(2) r by simp
  from extract_record_record_bytes[OF s u] obtain fd lg where
    e: "extract_record writable st =
          (\<lparr>inp = fd, disk = disk st @ [(stored_name n, b)], dec_reads = lg\<rparr>, Next)"
    and fd: "unread fd = concat (map (\<lambda>(n, b). record_bytes n b) recs) @ rest"
    by blast
  let ?st1 = "\<lparr>inp = fd, disk = disk st @ [(stored_name n, b)], dec_reads = lg\<rparr>"
  have "\<forall>r \<in> set recs. storable writable r" using Cons.prems(1) by simp
  moreover have "unread (inp ?st1) = concat (map (\<lambda>(n, b). record_bytes n b) recs) @ rest"
    using fd by simp
  ultimately obtain st' where
    "extract_archive writable ?st1 = extract_archive writable st'"
    "unread (inp st') = rest"
    "disk st' = disk ?st1 @ map (\<lambda>(n, b). (stored_name n, b)) recs"
    using Cons.IH[of ?st1] by blast
  with extract_archive_next[OF e] r show ?case by auto
qed

subsection \<open>UTF-8 round trip\<close>

lemma utf8_decode_one:
  assumes "unat b0 = c" and "c < 0x80"
  shows "utf8_decode (b0 # rest) =
     (case utf8_decode rest of None \<Rightarrow> None | Some cs \<Rightarrow> Some (c # cs))"
  using assms by (simp split: option.split)

lemma utf8_decode_two:
  assumes "unat b0 = 0xC0 + h" and "unat b1 = 0x80 + l"
    and "h < 32" and "l < 64" and "0x80 \<le> h * 64 + l"
  shows "utf8_decode (b0 # b1 # rest) =
     (case utf8_decode rest of None \<Rightarrow> None | Some cs \<Rightarrow> Some ((h * 64 + l) # cs))"
  using assms by (simp add: is_cont_def payload_def split: option.split)

lemma utf8_decode_three:
  assumes "unat b0 = 0xE0 + h" and "unat b1 = 0x80 + m" and "unat b2 = 0x80 + l"
    and "h < 16" and "m < 64" and "l < 64"
    and "0x800 \<le> h * 4096 + m * 64 + l"
    and "\<not> (0xD800 \<le> h * 4096 + m * 64 + l \<and> h * 4096 + m * 64 + l \<le> 0xDFFF)"
  shows "utf8_decode (b0 # b1 # b2 # rest) =
     (case utf8_decode rest of
        None \<Rightarrow> None
      | Some cs \<Rightarrow> Some ((h * 4096 + m * 64 + l) # cs))"
  using assms by (simp add: is_cont_def payload_def split: option.split)

lemma utf8_decode_four:
  assumes "unat b0 = 0xF0 + h" and "unat b1 = 0x80 + m" and "unat b2 = 0x80 + k"
    and "unat b3 = 0x80 + l"
    and "h < 8" and "m < 64" and "k < 64" and "l < 64"
    and "0x10000 \<le> h * 262144 + m * 4096 + k * 64 + l"
    and "h * 262144 + m * 4096 + k * 64 + l < 0x110000"
  shows "utf8_decode (b0 # b1 # b2 # b3 # rest) =
     (case utf8_decode rest of
        None \<Rightarrow> None
      | Some cs \<Rightarrow> Some ((h * 262144 + m * 4096 + k * 64 + l) # cs))"
  using assms by (simp add: is_cont_def payload_def split: option.split)

lemma utf8_decode_char:
  assumes "utf8_char c = Some bs"
  shows "utf8_decode (bs @ rest) =
     (case utf8_decode rest of None \<Rightarrow> None | Some cs \<Rightarrow> Some (c # cs))"
proof -
  define l where "l = c mod 64"
  define m where "m = c div 64 mod 64"
  define k where "k = c div 4096 mod 64"
  have l: "l < 64" and m: "m < 64" and k: "k < 64"
    by (simp_all add: l_def m_def k_def)
  define b1 :: byte where "b1 = of_nat (0x80 + l)"
  define b2 :: byte where "b2 = of_nat (0x80 + m)"
  define b3 :: byte where "b3 = of_nat (0x80 + k)"
  have u1: "unat b1 = 0x80 + l"
    unfolding b1_def by (rule unat_byte) (use l in linarith)
  have u2: "unat b2 = 0x80 + m"
    unfolding b2_def by (rule unat_byte) (use m in linarith)
  have u3: "unat b3 = 0x80 + k"
    unfolding b3_def by (rule unat_byte) (use k in linarith)
  consider (one) "c < 0x80"
    | (two) "0x80 \<le> c" "c < 0x800"
    | (three) "0x800 \<le> c" "c < 0x10000" "\<not> (0xD800 \<le> c \<and> c \<le> 0xDFFF)"
    | (four) "0x10000 \<le> c" "c < 0x110000"
    | (none) "(0xD800 \<le> c \<and> c \<le> 0xDFFF) \<or> 0x110000 \<le> c"
    by linarith
  then show ?thesis
  proof cases
    case one
    define b0 :: byte where "b0 = of_nat c"
    have u0: "unat b0 = c"
      unfolding b0_def by (rule unat_byte) (use one in linarith)
    have bs: "bs = [b0]"
      using assms one by (simp add: utf8_char_def b0_def)
    show ?thesis
      unfolding bs append_Cons append_Nil
      by (rule utf8_decode_one[OF u0 one])
  next
    case two
    define h where "h = c div 64"
    have h: "h < 32"
      using two by (simp add: h_def)
    have v: "h * 64 + l = c"
      by (simp add: h_def l_def)
    define b0 :: byte where "b0 = of_nat (0xC0 + h)"
    have u0: "unat b0 = 0xC0 + h"
      unfolding b0_def by (rule unat_byte) (use h in linarith)
    have bs: "bs = [b0, b1]"
      using assms two by (simp add: utf8_char_def b0_def b1_def h_def l_def)
    have ge: "0x80 \<le> h * 64 + l"
      using two unfolding v by linarith
    show ?thesis
      unfolding bs append_Cons append_Nil
      by (subst utf8_decode_two[OF u0 u1 h l ge]) (simp only: v)
  next
    case three
    define h where "h = c div 4096"
    have h: "h < 16"
      using three by (simp add: h_def)
    have "c div 4096 = c div 64 div 64"
      by (simp add: div_mult2_eq)
    then have "h * 64 + m = c div 64"
      by (simp add: h_def m_def)
    then have "(h * 64 + m) * 64 + l = c"
      by (simp add: l_def)
    then have v: "h * 4096 + m * 64 + l = c"
      by (simp add: algebra_simps)
    define b0 :: byte where "b0 = of_nat (0xE0 + h)"
    have u0: "unat b0 = 0xE0 + h"
      unfolding b0_def by (rule unat_byte) (use h in linarith)
    have bs: "bs = [b0, b2, b1]"
      using assms three by (simp add: utf8_char_def b0_def b1_def b2_def h_def l_def m_def)
    have ge: "0x800 \<le> h * 4096 + m * 64 + l"
      using three unfolding v by linarith
    have ns: "\<not> (0xD800 \<le> h * 4096 + m * 64 + l \<and> h * 4096 + m * 64 + l \<le> 0xDFFF)"
      using three unfolding v by linarith
    show ?thesis
      unfolding bs append_Cons append_Nil
      by (subst utf8_decode_three[OF u0 u2 u1 h m l ge ns]) (simp only: v)
  next
    case four
    define h where "h = c div 262144"
    have h: "h < 8"
      using four by (simp add: h_def)
    have e: "c div 4096 = c div 64 div 64"
      by (simp add: div_mult2_eq)
    have f: "c div 262144 = c div 64 div 64 div 64"
      by (simp add: div_mult2_eq)
    have s1: "c div 64 * 64 + l = c"
      by (simp add: l_def)
    have s2: "c div 64 div 64 * 64 + m = c div 64"
      by (simp add: m_def)
    have s3: "c div 64 div 64 div 64 * 64 + k = c div 64 div 64"
      unfolding k_def e by simp
    have "((h * 64 + k) * 64 + m) * 64 + l = c"
      unfolding h_def f by (simp only: s3 s2 s1)
    then have v: "h * 262144 + k * 4096 + m * 64 + l = c"
      by (simp add: algebra_simps)
    define b0 :: byte where "b0 = of_nat (0xF0 + h)"
    have u0: "unat b0 = 0xF0 + h"
      unfolding b0_def by (rule unat_byte) (use h in linarith)
    have bs: "bs = [b0, b3, b2, b1]"
      using assms four
      by (simp add: utf8_char_def b0_def b1_def b2_def b3_def h_def l_def m_def k_def)
    have ge: "0x10000 \<le> h * 262144 + k * 4096 + m * 64 + l"
      using four unfolding v by linarith
    have lt: "h * 262144 + k * 4096 + m * 64 + l < 0x110000"
      using four unfolding v by linarith
    show ?thesis
      unfolding bs append_Cons append_Nil
      by (subst utf8_decode_four[OF u0 u3 u2 u1 h k m l ge lt]) (simp only: v)
  next
    case none
    with assms show ?thesis
      by (auto simp add: utf8_char_def split: if_splits)
  qed
qed

lemma utf8_decode_encode: "utf8_encode name = Some bs \<Longrightarrow> utf8_decode bs = Some name"
proof (induction name arbitrary: bs)
  case Nil
  then show ?case by simp
next
  case (Cons c name)
  from Cons.prems obtain b bs' where c: "utf8_char c = Some b"
    and n: "utf8_encode name = Some bs'" and bs: "bs = b @ bs'"
    by (auto split: option.splits)
  show ?case
    using utf8_decode_char[OF c, of bs'] Cons.IH[OF n] bs by simp
qed

lemma utf8_char_nonempty: "utf8_char c = Some bs \<Longrightarrow> bs \<noteq> []"
  by (auto simp add: utf8_char_def split: if_splits)

lemma utf8_encode_nonempty: "utf8_encode name = Some bs \<Longrightarrow> name \<noteq> [] \<Longrightarrow> bs \<noteq> []"
  by (cases name) (auto split: option.splits dest: utf8_char_nonempty)


subsection \<open>One turn of the encoder\<close>

lemma open_rdonly_Inr:
  "open_rdonly fs name = Inr f \<longleftrightarrow> fs name = Some f \<and> name \<noteq> [] \<and> 0 \<notin> set name"
  by (auto simp: open_rdonly_def split: option.splits)

lemma copy_contents_nothing: "copy_contents fd 0 sink lg = (True, fd, sink, lg)"
  by (simp add: copy_contents.simps[of fd 0])

lemma archive_file_emits:
  assumes o: "open_rdonly fs name = Inr f" and z: "st_size f = Some sz"
    and n: "utf8_encode name = Some nb" and l: "length nb < 2 ^ 32"
    and s0: "0 \<le> sz" and s1: "sz < 2 ^ 64"
  shows "\<exists>lg. archive_file fs name s =
           (s\<lparr>out := out s @ big_endian 4 (length nb) @ nb @ big_endian 8 (nat sz)
                        @ take (nat sz) (unread (content f)),
               enc_reads := lg\<rparr>,
            if nat sz \<le> length (unread (content f)) then None
            else Some (UnexpectedEOFReading name))"
proof -
  have t4: "to_bytes (int (length nb)) 4 = Some (big_endian 4 (length nb))"
    using l by (simp add: to_bytes_def)
  have t8: "to_bytes sz 8 = Some (big_endian 8 (nat sz))"
    using s0 s1 by (simp add: to_bytes_def)
  obtain fd' lg' where c:
    "copy_contents (content f) sz
       (out s @ big_endian 4 (length nb) @ nb @ big_endian 8 (nat sz)) (enc_reads s) =
       (nat sz \<le> length (unread (content f)), fd',
        (out s @ big_endian 4 (length nb) @ nb @ big_endian 8 (nat sz))
          @ take (nat sz) (unread (content f)), lg')"
    and "unread fd' = drop (nat sz) (unread (content f))"
    by (rule copy_contents_cases)
  have "archive_file fs name s =
           (s\<lparr>out := out s @ big_endian 4 (length nb) @ nb @ big_endian 8 (nat sz)
                        @ take (nat sz) (unread (content f)),
               enc_reads := lg'\<rparr>,
            if nat sz \<le> length (unread (content f)) then None
            else Some (UnexpectedEOFReading name))"
    unfolding archive_file_def using o z n t4 t8 c
    by (simp add: hold_def release_def emit_def)
  then show ?thesis
    by (rule exI)
qed

lemma archive_file_record:
  assumes a: "archive_file fs name s = (s', r)"
    and r: "r = None \<or> r = Some (UnexpectedEOFReading name)"
  shows "\<exists>f sz nb. open_rdonly fs name = Inr f \<and> st_size f = Some sz \<and>
           utf8_encode name = Some nb \<and> length nb < 2 ^ 32 \<and> 0 \<le> sz \<and> sz < 2 ^ 64"
proof (cases "open_rdonly fs name")
  case (Inl e)
  then have "e = Traceback ValueError \<or> e = CannotOpenFile name"
    by (auto simp: open_rdonly_def split: if_splits option.splits)
  with a r Inl show ?thesis
    by (auto simp: archive_file_def)
next
  case (Inr f)
  show ?thesis
  proof (cases "st_size f")
    case None
    with a r Inr show ?thesis by (auto simp: archive_file_def)
  next
    case (Some sz)
    note sz = this
    show ?thesis
    proof (cases "utf8_encode name")
      case None
      with a r Inr sz show ?thesis by (auto simp: archive_file_def)
    next
      case (Some nb)
      note nb = this
      show ?thesis
      proof (cases "to_bytes (int (length nb)) 4")
        case None
        with a r Inr sz nb show ?thesis by (auto simp: archive_file_def)
      next
        case (Some len4)
        note len4 = this
        show ?thesis
        proof (cases "to_bytes sz 8")
          case None
          with a r Inr sz nb len4 show ?thesis by (auto simp: archive_file_def)
        next
          case (Some size8)
          from len4 have "length nb < 2 ^ 32"
            by (simp add: to_bytes_def split: if_splits)
          moreover from Some have "0 \<le> sz" and "sz < 2 ^ 64"
            by (simp_all add: to_bytes_def split: if_splits)
          ultimately show ?thesis
            using Inr sz nb by simp
        qed
      qed
    qed
  qed
qed

lemma copy_contents_eof:
  "copy_contents fd n sink lg = (False, fd', sink', lg') \<Longrightarrow>
     \<exists>remaining. 0 < remaining \<and> lg' \<noteq> [] \<and>
       last lg' = (remaining, min BUF_SIZE remaining, 0) \<and>
       int (length sink') + remaining = int (length sink) + n"
proof (induction fd n sink lg arbitrary: fd' sink' lg' rule: copy_contents.induct)
  case (1 fd remaining sink lg)
  show ?case
  proof (cases "remaining > 0")
    case False
    with "1.prems" show ?thesis by (simp add: copy_contents.simps[of fd remaining])
  next
    case True
    obtain chunk fd1 where r: "os_read fd (min BUF_SIZE remaining) = (chunk, fd1)"
      by (cases "os_read fd (min BUF_SIZE remaining)")
    show ?thesis
    proof (cases "chunk = []")
      case True
      with r \<open>remaining > 0\<close> "1.prems" show ?thesis
        by (auto simp add: copy_contents.simps[of fd remaining])
    next
      case False
      let ?lg = "lg @ [(remaining, min BUF_SIZE remaining, length chunk)]"
      have rec: "copy_contents fd1 (remaining - int (length chunk)) (sink @ chunk) ?lg
                   = (False, fd', sink', lg')"
        using "1.prems" r True False
        by (simp add: copy_contents.simps[of fd remaining])
      from "1.IH"[OF True r[symmetric] False rec] show ?thesis
        by auto
    qed
  qed
qed


section \<open>Properties\<close>

subsection \<open>\<^verbatim>\<open>read_exact\<close>\<close>

text \<open>
  C10: for every stream and every \<open>n \<ge> 0\<close>, \<^verbatim>\<open>read_exact\<close> returns a prefix of the
  bytes the stream still holds, of length \<open>min n available\<close>: exactly \<open>n\<close> bytes
  unless the stream ends first, never more than \<open>n\<close>, however the reads are cut short.
  The bytes after the prefix stay in the stream.
\<close>

theorem read_exact_prefix:
  "0 \<le> n \<Longrightarrow>
     fst (read_exact fd n) = take (nat n) (unread fd) \<and>
     int (length (fst (read_exact fd n))) = min n (int (length (unread fd))) \<and>
     unread (snd (read_exact fd n)) = drop (nat n) (unread fd)"
  by (auto simp add: read_exact_fst read_exact_unread)

theorem read_exact_prefix_witness:
  "fst (read_exact \<lparr>unread = [1, 2, 3, 4, 5], caps = [0, 1]\<rparr> 4) = [1, 2, 3, 4] \<and>
   unread (snd (read_exact \<lparr>unread = [1, 2, 3, 4, 5], caps = [0, 1]\<rparr> 4)) = [5] \<and>
   fst (read_exact \<lparr>unread = [1, 2], caps = []\<rparr> 4) = [1, 2]"
  using read_exact_prefix[of 4 "\<lparr>unread = [1, 2, 3, 4, 5], caps = [0, 1]\<rparr>"]
    read_exact_prefix[of 4 "\<lparr>unread = [1, 2], caps = []\<rparr>"]
  by simp

subsection \<open>The size check of the decoder\<close>

lemma extract_record_never_invalid_size:
  "snd (extract_record writable st) \<noteq> Died InvalidFileSize"
  by (auto simp: extract_record_def open_trunc_def
           split: prod.splits if_splits option.splits)

lemma extract_archive_never_invalid_size:
  "snd (extract_archive writable st) \<noteq> Some InvalidFileSize"
proof (induction writable st rule: extract_archive.induct)
  case (1 writable st)
  obtain st' r where e: "extract_record writable st = (st', r)"
    by (cases "extract_record writable st")
  show ?case
  proof (cases r)
    case Next
    with e "1.IH"[of st'] show ?thesis
      by (simp add: extract_archive.simps[of writable st])
  next
    case Finished
    with e show ?thesis
      by (simp add: extract_archive.simps[of writable st])
  next
    case (Died x)
    with e extract_record_never_invalid_size[of writable st] show ?thesis
      by (simp add: extract_archive.simps[of writable st])
  qed
qed

text \<open>
  C7: the decoder reads the 8-byte content length as an unsigned big-endian integer, so
  the size is never negative, whatever the bytes, and the check \<^verbatim>\<open>size < 0\<close> never
  fires: no run of the decoder, on any input, ends with "invalid file size".
\<close>

theorem invalid_file_size_unreachable:
  "0 \<le> from_bytes raw_size \<and>
   snd (extract_record writable st) \<noteq> Died InvalidFileSize \<and>
   snd (extract_archive writable st) \<noteq> Some InvalidFileSize"
  by (simp add: from_bytes_nonneg extract_record_never_invalid_size
        extract_archive_never_invalid_size)

theorem invalid_file_size_unreachable_witness:
  "(0 \<le> from_bytes [255, 255, 255, 255, 255, 255, 255, 255] \<and>
    snd (extract_record (\<lambda>name. True)
          \<lparr>inp = \<lparr>unread = [0, 0, 0, 1, 97, 255, 255, 255, 255, 255, 255, 255, 255, 7],
                  caps = []\<rparr>,
           disk = [], dec_reads = []\<rparr>) \<noteq> Died InvalidFileSize \<and>
    snd (extract_archive (\<lambda>name. True)
          \<lparr>inp = \<lparr>unread = [0, 0, 0, 1, 97, 255, 255, 255, 255, 255, 255, 255, 255, 7],
                  caps = []\<rparr>,
           disk = [], dec_reads = []\<rparr>) \<noteq> Some InvalidFileSize) \<and>
   from_bytes [255, 255, 255, 255, 255, 255, 255, 255] = 18446744073709551615 \<and>
   snd (extract_archive (\<lambda>name. True)
          \<lparr>inp = \<lparr>unread = [0, 0, 0, 1, 97, 255, 255, 255, 255, 255, 255, 255, 255, 7],
                  caps = []\<rparr>,
           disk = [], dec_reads = []\<rparr>) = Some UnexpectedEOFInFileData"
proof -
  have a: "from_bytes [255, 255, 255, 255, 255, 255, 255, 255] = 18446744073709551615"
    by code_simp
  have b: "snd (extract_archive (\<lambda>name. True)
          \<lparr>inp = \<lparr>unread = [0, 0, 0, 1, 97, 255, 255, 255, 255, 255, 255, 255, 255, 7],
                  caps = []\<rparr>,
           disk = [], dec_reads = []\<rparr>) = Some UnexpectedEOFInFileData"
    by code_simp
  show ?thesis
    by (rule conjI[OF invalid_file_size_unreachable conjI[OF a b]])
qed

subsection \<open>Errors of the decoder\<close>

lemma extract_archive_finished:
  assumes "unread (inp st) = []"
  shows "snd (extract_archive writable st) = None \<and>
         disk (fst (extract_archive writable st)) = disk st"
  using extract_record_eof[OF assms, of writable]
  by (simp add: extract_archive_stops)

lemma extract_archive_short_length:
  assumes "unread (inp st) \<noteq> []" and "length (unread (inp st)) < 4"
  shows "snd (extract_archive writable st) = Some IncompleteFilenameLength \<and>
         disk (fst (extract_archive writable st)) = disk st"
  using extract_record_short_length[OF assms, of writable]
  by (simp add: extract_archive_stops)

subsection \<open>What an accepted stream is made of\<close>

lemma from_bytes_bound: "from_bytes bs < 256 ^ length bs"
proof (induction bs rule: rev_induct)
  case Nil
  show ?case by (simp add: from_bytes_def)
next
  case (snoc x xs)
  have x: "uint x < 256"
    using uint_bounded[of x] by simp
  have "from_bytes xs + 1 \<le> 256 ^ length xs"
    using snoc.IH by simp
  then have "(from_bytes xs + 1) * 256 \<le> 256 ^ length xs * 256"
    by (rule mult_right_mono) simp
  then have "from_bytes xs * 256 + 256 \<le> 256 ^ length xs * 256"
    by (simp add: distrib_right)
  with x have "from_bytes xs * 256 + uint x < 256 ^ length xs * 256"
    by linarith
  then show ?case
    by (simp add: from_bytes_append)
qed

lemma big_endian_from_bytes: "length bs = k \<Longrightarrow> big_endian k (nat (from_bytes bs)) = bs"
proof (induction bs arbitrary: k rule: rev_induct)
  case Nil
  then show ?case by simp
next
  case (snoc x xs)
  obtain k' where k: "k = Suc k'" and k': "length xs = k'"
    using snoc.prems by (cases k) auto
  have x: "0 \<le> uint x" "uint x < 256"
    using uint_bounded[of x] by simp_all
  have f: "0 \<le> from_bytes xs"
    by (rule from_bytes_nonneg)
  have v: "nat (from_bytes (xs @ [x])) = nat (from_bytes xs) * 256 + unat x"
    using x f by (simp add: from_bytes_append nat_add_distrib nat_mult_distrib)
  have "unat x < 2 ^ LENGTH(8)"
    by (rule unsigned_less)
  then have ux: "unat x < 256"
    by simp
  have d: "nat (from_bytes (xs @ [x])) div 256 = nat (from_bytes xs)"
    using ux by (simp add: v)
  have m: "nat (from_bytes (xs @ [x])) mod 256 = unat x"
    using ux by (simp add: v)
  show ?case
    using snoc.IH[OF k'] by (simp add: k d m)
qed

lemma extract_record_next:
  assumes e: "extract_record writable st = (st', Next)"
  shows "\<exists>name_bytes body.
           storable writable (name_bytes, body) \<and>
           unread (inp st) = record_bytes name_bytes body @ unread (inp st') \<and>
           disk st' = disk st @ [(stored_name name_bytes, body)]"
proof -
  let ?u = "unread (inp st)"
  obtain fd1 where r1: "read_exact (inp st) 4 = (take (nat 4) ?u, fd1)"
    and u1: "unread fd1 = drop (nat 4) ?u"
    by (rule read_exact_cases)
  define raw_len where "raw_len = take 4 ?u"
  obtain fd2 where r2: "read_exact fd1 (from_bytes raw_len)
                          = (take (nat (from_bytes raw_len)) (unread fd1), fd2)"
    and u2: "unread fd2 = drop (nat (from_bytes raw_len)) (unread fd1)"
    by (rule read_exact_cases)
  define name_bytes where "name_bytes = take (nat (from_bytes raw_len)) (unread fd1)"
  obtain fd3 where r3: "read_exact fd2 8 = (take (nat 8) (unread fd2), fd3)"
    and u3: "unread fd3 = drop (nat 8) (unread fd2)"
    by (rule read_exact_cases)
  define raw_size where "raw_size = take 8 (unread fd2)"
  obtain fd4 lg where r4: "copy_contents fd3 (from_bytes raw_size) [] (dec_reads st) =
       (nat (from_bytes raw_size) \<le> length (unread fd3), fd4,
        [] @ take (nat (from_bytes raw_size)) (unread fd3), lg)"
    and u4: "unread fd4 = drop (nat (from_bytes raw_size)) (unread fd3)"
    by (rule copy_contents_cases)
  define body where "body = take (nat (from_bytes raw_size)) (unread fd3)"
  have r1': "read_exact (inp st) 4 = (raw_len, fd1)"
    using r1 by (simp add: raw_len_def)
  have r2': "read_exact fd1 (from_bytes raw_len) = (name_bytes, fd2)"
    using r2 by (simp add: name_bytes_def)
  have r3': "read_exact fd2 8 = (raw_size, fd3)"
    using r3 by (simp add: raw_size_def)
  have r4': "copy_contents fd3 (from_bytes raw_size) [] (dec_reads st) =
       (nat (from_bytes raw_size) \<le> length (unread fd3), fd4, body, lg)"
    using r4 by (simp add: body_def)
  from e obtain name where
    c1: "\<not> length raw_len < 4" and c2: "\<not> from_bytes raw_len \<le> 0"
    and c3: "\<not> int (length name_bytes) < from_bytes raw_len"
    and c4: "utf8_decode name_bytes = Some name"
    and c5: "\<not> length raw_size < 8"
    and c6: "open_trunc writable name = None"
    and c7: "nat (from_bytes raw_size) \<le> length (unread fd3)"
    and st': "st' = \<lparr>inp = fd4, disk = disk st @ [(name, body)], dec_reads = lg\<rparr>"
    by (simp add: extract_record_def r1' r2' r3' r4' split: if_splits option.splits)
  have l4: "length raw_len = 4"
    using c1 by (simp add: raw_len_def)
  have ln: "length name_bytes = nat (from_bytes raw_len)"
    using c3 by (simp add: name_bytes_def)
  have l8: "length raw_size = 8"
    using c5 by (simp add: raw_size_def)
  have lb: "length body = nat (from_bytes raw_size)"
    using c7 by (simp add: body_def)
  have b4: "big_endian 4 (length name_bytes) = raw_len"
    using big_endian_from_bytes[OF l4] ln by simp
  have b8: "big_endian 8 (length body) = raw_size"
    using big_endian_from_bytes[OF l8] lb by simp
  have "from_bytes raw_len < 256 ^ 4"
    using from_bytes_bound[of raw_len] l4 by simp
  then have n32: "length name_bytes < 2 ^ 32"
    using ln c2 by simp
  have "from_bytes raw_size < 256 ^ 8"
    using from_bytes_bound[of raw_size] l8 by simp
  then have n64: "length body < 2 ^ 64"
    using lb from_bytes_nonneg[of raw_size]
    by (simp add: nat_less_iff)
  have ne: "name_bytes \<noteq> []"
    using ln c2 by auto
  have s: "storable writable (name_bytes, body)"
    using ne n32 n64 c4 c6 by (simp add: storable_def)
  have "?u = raw_len @ unread fd1"
    using u1 by (simp add: raw_len_def)
  also have "unread fd1 = name_bytes @ unread fd2"
    using u2 by (simp add: name_bytes_def)
  also have "unread fd2 = raw_size @ unread fd3"
    using u3 by (simp add: raw_size_def)
  also have "unread fd3 = body @ unread fd4"
    using u4 by (simp add: body_def)
  finally have "?u = record_bytes name_bytes body @ unread (inp st')"
    using b4 b8 st' by (simp add: record_bytes_def)
  moreover have "disk st' = disk st @ [(stored_name name_bytes, body)]"
    using st' c4 by (simp add: stored_name_def)
  ultimately show ?thesis
    using s by blast
qed

lemma extract_archive_accepts:
  "snd (extract_archive writable st) = None \<Longrightarrow>
     \<exists>recs. (\<forall>r \<in> set recs. storable writable r) \<and>
            unread (inp st) = concat (map (\<lambda>(n, b). record_bytes n b) recs) \<and>
            disk (fst (extract_archive writable st))
              = disk st @ map (\<lambda>(n, b). (stored_name n, b)) recs"
proof (induction writable st rule: extract_archive.induct)
  case (1 writable st)
  obtain st' r where e: "extract_record writable st = (st', r)"
    by (cases "extract_record writable st")
  show ?case
  proof (cases r)
    case Next
    have same: "extract_archive writable st = extract_archive writable st'"
      using e Next by (simp add: extract_archive_next)
    then have "snd (extract_archive writable st') = None"
      using "1.prems" by simp
    from "1.IH"[OF e[symmetric] Next this] obtain recs where
      rs: "\<forall>r \<in> set recs. storable writable r"
      and ru: "unread (inp st') = concat (map (\<lambda>(n, b). record_bytes n b) recs)"
      and rd: "disk (fst (extract_archive writable st'))
                 = disk st' @ map (\<lambda>(n, b). (stored_name n, b)) recs"
      by auto
    from extract_record_next[of writable st st'] e Next obtain name_bytes body where
      s: "storable writable (name_bytes, body)"
      and u: "unread (inp st) = record_bytes name_bytes body @ unread (inp st')"
      and d: "disk st' = disk st @ [(stored_name name_bytes, body)]"
      by auto
    let ?recs = "(name_bytes, body) # recs"
    have "\<forall>r \<in> set ?recs. storable writable r"
      using s rs by simp
    moreover have "unread (inp st) = concat (map (\<lambda>(n, b). record_bytes n b) ?recs)"
      using u ru by simp
    moreover have "disk (fst (extract_archive writable st))
                     = disk st @ map (\<lambda>(n, b). (stored_name n, b)) ?recs"
      using same rd d by simp
    ultimately show ?thesis by blast
  next
    case Finished
    have "unread (inp st) = []"
    proof (rule ccontr)
      assume ne: "unread (inp st) \<noteq> []"
      obtain fd1 where "read_exact (inp st) 4 = (take (nat 4) (unread (inp st)), fd1)"
        by (rule read_exact_cases)
      with ne have "snd (extract_record writable st) \<noteq> Finished"
        by (auto simp add: extract_record_def split: prod.splits option.splits)
      with e Finished show False by simp
    qed
    moreover have "disk (fst (extract_archive writable st)) = disk st"
      using extract_archive_finished[OF \<open>unread (inp st) = []\<close>, of writable] by simp
    ultimately have "(\<forall>r \<in> set []. storable writable r) \<and>
            unread (inp st) = concat (map (\<lambda>(n, b). record_bytes n b) []) \<and>
            disk (fst (extract_archive writable st))
              = disk st @ map (\<lambda>(n, b). (stored_name n, b)) []"
      by simp
    then show ?thesis by blast
  next
    case (Died x)
    with e "1.prems" show ?thesis
      by (simp add: extract_archive.simps[of writable st])
  qed
qed

text \<open>
  C3: when the decoder starts to read the 4-byte name length of a record, in any state
  of its loop, and no byte is left, the loop ends with success; when one to three bytes
  are left, the run fails with "incomplete filename length". In both cases no file is
  created. In particular, after any number of whole records, the end of the stream is
  accepted, and a stream cut inside the next length field is not. The end of the stream
  is accepted only at a record boundary: whenever a run ends with success, the bytes it
  was given are whole records, one after the other and nothing else, and the files
  created are theirs, in that order.
\<close>

theorem end_of_stream_at_record_start:
  "(unread (inp st) = [] \<longrightarrow>
      snd (extract_archive writable st) = None \<and>
      disk (fst (extract_archive writable st)) = disk st) \<and>
   (unread (inp st) \<noteq> [] \<and> length (unread (inp st)) < 4 \<longrightarrow>
      snd (extract_archive writable st) = Some IncompleteFilenameLength \<and>
      disk (fst (extract_archive writable st)) = disk st) \<and>
   ((\<forall>r \<in> set recs. storable writable r) \<and>
    unread (inp st) = concat (map (\<lambda>(n, b). record_bytes n b) recs) @ rest \<and>
    length rest < 4 \<longrightarrow>
      snd (extract_archive writable st)
        = (if rest = [] then None else Some IncompleteFilenameLength) \<and>
      disk (fst (extract_archive writable st))
        = disk st @ map (\<lambda>(n, b). (stored_name n, b)) recs) \<and>
   (snd (extract_archive writable st) = None \<longrightarrow>
      (\<exists>whole. (\<forall>r \<in> set whole. storable writable r) \<and>
         unread (inp st) = concat (map (\<lambda>(n, b). record_bytes n b) whole) \<and>
         disk (fst (extract_archive writable st))
           = disk st @ map (\<lambda>(n, b). (stored_name n, b)) whole))"
proof -
  have at_end: "unread (inp st) = [] \<longrightarrow>
      snd (extract_archive writable st) = None \<and>
      disk (fst (extract_archive writable st)) = disk st"
    using extract_archive_finished[of st writable] by blast
  have inside: "unread (inp st) \<noteq> [] \<and> length (unread (inp st)) < 4 \<longrightarrow>
      snd (extract_archive writable st) = Some IncompleteFilenameLength \<and>
      disk (fst (extract_archive writable st)) = disk st"
    using extract_archive_short_length[of st writable] by blast
  have after: "(\<forall>r \<in> set recs. storable writable r) \<and>
      unread (inp st) = concat (map (\<lambda>(n, b). record_bytes n b) recs) @ rest \<and>
      length rest < 4 \<longrightarrow>
        snd (extract_archive writable st)
          = (if rest = [] then None else Some IncompleteFilenameLength) \<and>
        disk (fst (extract_archive writable st))
          = disk st @ map (\<lambda>(n, b). (stored_name n, b)) recs"
  proof
    assume a: "(\<forall>r \<in> set recs. storable writable r) \<and>
      unread (inp st) = concat (map (\<lambda>(n, b). record_bytes n b) recs) @ rest \<and>
      length rest < 4"
    then obtain st' where e: "extract_archive writable st = extract_archive writable st'"
      and u: "unread (inp st') = rest"
      and d: "disk st' = disk st @ map (\<lambda>(n, b). (stored_name n, b)) recs"
      using extract_archive_records[of recs writable st rest] by blast
    have "snd (extract_archive writable st')
            = (if rest = [] then None else Some IncompleteFilenameLength) \<and>
          disk (fst (extract_archive writable st')) = disk st'"
      using extract_archive_finished[of st' writable]
        extract_archive_short_length[of st' writable] u a
      by auto
    then show "snd (extract_archive writable st)
          = (if rest = [] then None else Some IncompleteFilenameLength) \<and>
        disk (fst (extract_archive writable st))
          = disk st @ map (\<lambda>(n, b). (stored_name n, b)) recs"
      using e d by simp
  qed
  have only_whole: "snd (extract_archive writable st) = None \<longrightarrow>
      (\<exists>whole. (\<forall>r \<in> set whole. storable writable r) \<and>
         unread (inp st) = concat (map (\<lambda>(n, b). record_bytes n b) whole) \<and>
         disk (fst (extract_archive writable st))
           = disk st @ map (\<lambda>(n, b). (stored_name n, b)) whole)"
    using extract_archive_accepts[of writable st] by blast
  from at_end inside after only_whole show ?thesis by (intro conjI)
qed

theorem end_of_stream_at_record_start_witness:
  "snd (extract_archive (\<lambda>name. True)
          \<lparr>inp = \<lparr>unread = [], caps = []\<rparr>, disk = [([97], [1])], dec_reads = []\<rparr>) = None \<and>
   snd (extract_archive (\<lambda>name. True)
          \<lparr>inp = \<lparr>unread = [0, 0, 0], caps = [0]\<rparr>, disk = [], dec_reads = []\<rparr>)
     = Some IncompleteFilenameLength \<and>
   snd (extract_archive (\<lambda>name. True)
          \<lparr>inp = \<lparr>unread = concat (map (\<lambda>(n, b). record_bytes n b) [([97], [1, 2])]) @ [0],
                  caps = []\<rparr>,
           disk = [], dec_reads = []\<rparr>)
     = Some IncompleteFilenameLength \<and>
   disk (fst (extract_archive (\<lambda>name. True)
          \<lparr>inp = \<lparr>unread = concat (map (\<lambda>(n, b). record_bytes n b) [([97], [1, 2])]) @ [0],
                  caps = []\<rparr>,
           disk = [], dec_reads = []\<rparr>))
     = [([97], [1, 2])] \<and>
   (\<exists>whole. (\<forall>r \<in> set whole. storable (\<lambda>name. True) r) \<and>
      [0, 0, 0, 1, 97, 0, 0, 0, 0, 0, 0, 0, 2, 1, 2]
        = concat (map (\<lambda>(n, b). record_bytes n b) whole) \<and>
      disk (fst (extract_archive (\<lambda>name. True)
          \<lparr>inp = \<lparr>unread = [0, 0, 0, 1, 97, 0, 0, 0, 0, 0, 0, 0, 2, 1, 2], caps = [1]\<rparr>,
           disk = [], dec_reads = []\<rparr>))
        = [] @ map (\<lambda>(n, b). (stored_name n, b)) whole) \<and>
   snd (extract_archive (\<lambda>name. True)
          \<lparr>inp = \<lparr>unread = [0, 0, 0, 5, 97, 98], caps = []\<rparr>, disk = [], dec_reads = []\<rparr>)
     = Some IncompleteFilename"
proof -
  have s: "storable (\<lambda>name. True) ([97], [1, 2])"
    by (simp add: storable_def open_trunc_def)
  have n: "stored_name [97] = [97]"
    by (simp add: stored_name_def)
  have accepted: "snd (extract_archive (\<lambda>name. True)
          \<lparr>inp = \<lparr>unread = [0, 0, 0, 1, 97, 0, 0, 0, 0, 0, 0, 0, 2, 1, 2], caps = [1]\<rparr>,
           disk = [], dec_reads = []\<rparr>) = None"
    by code_simp
  have cut: "snd (extract_archive (\<lambda>name. True)
          \<lparr>inp = \<lparr>unread = [0, 0, 0, 5, 97, 98], caps = []\<rparr>, disk = [], dec_reads = []\<rparr>)
     = Some IncompleteFilename"
    by code_simp
  show ?thesis
    using end_of_stream_at_record_start[of
        "\<lparr>inp = \<lparr>unread = [], caps = []\<rparr>, disk = [([97], [1])], dec_reads = []\<rparr>"
        "\<lambda>name. True" "[]" "[]"]
      end_of_stream_at_record_start[of
        "\<lparr>inp = \<lparr>unread = [0, 0, 0], caps = [0]\<rparr>, disk = [], dec_reads = []\<rparr>"
        "\<lambda>name. True" "[]" "[]"]
      end_of_stream_at_record_start[of
        "\<lparr>inp = \<lparr>unread = concat (map (\<lambda>(n, b). record_bytes n b) [([97], [1, 2])]) @ [0],
                  caps = []\<rparr>, disk = [], dec_reads = []\<rparr>"
        "\<lambda>name. True" "[([97], [1, 2])]" "[0]"]
      end_of_stream_at_record_start[of
        "\<lparr>inp = \<lparr>unread = [0, 0, 0, 1, 97, 0, 0, 0, 0, 0, 0, 0, 2, 1, 2], caps = [1]\<rparr>,
           disk = [], dec_reads = []\<rparr>"
        "\<lambda>name. True" "[]" "[]"]
      s n accepted cut
    by simp
qed

text \<open>
  C4: a record whose name-length field reads 0 is rejected with "invalid filename
  length", whatever bytes follow it, also when they would make a well-formed record;
  the records before it have been extracted, and nothing is created for it.
\<close>

theorem zero_name_length_rejected:
  assumes "\<forall>r \<in> set recs. storable writable r"
    and "unread (inp st) = concat (map (\<lambda>(n, b). record_bytes n b) recs) @ raw_len @ rest"
    and "length raw_len = 4"
    and "from_bytes raw_len = 0"
  shows "snd (extract_archive writable st) = Some InvalidFilenameLength \<and>
         disk (fst (extract_archive writable st))
           = disk st @ map (\<lambda>(n, b). (stored_name n, b)) recs"
proof -
  obtain st' where e: "extract_archive writable st = extract_archive writable st'"
    and u: "unread (inp st') = raw_len @ rest"
    and d: "disk st' = disk st @ map (\<lambda>(n, b). (stored_name n, b)) recs"
    using extract_archive_records[OF assms(1,2)] by blast
  have "4 \<le> length (unread (inp st'))" and "from_bytes (take 4 (unread (inp st'))) = 0"
    using u assms(3,4) by simp_all
  from extract_record_zero_length[OF this, of writable] show ?thesis
    using e d by (simp add: extract_archive_stops)
qed

theorem zero_name_length_rejected_witness:
  "snd (extract_archive (\<lambda>name. True)
          \<lparr>inp = \<lparr>unread = concat (map (\<lambda>(n, b). record_bytes n b) [([97], [1, 2])])
                           @ [0, 0, 0, 0] @ [0, 0, 0, 0, 0, 0, 0, 1, 9],
                  caps = [2]\<rparr>,
           disk = [], dec_reads = []\<rparr>)
     = Some InvalidFilenameLength \<and>
   disk (fst (extract_archive (\<lambda>name. True)
          \<lparr>inp = \<lparr>unread = concat (map (\<lambda>(n, b). record_bytes n b) [([97], [1, 2])])
                           @ [0, 0, 0, 0] @ [0, 0, 0, 0, 0, 0, 0, 1, 9],
                  caps = [2]\<rparr>,
           disk = [], dec_reads = []\<rparr>))
     = [([97], [1, 2])]"
proof -
  have s: "\<forall>r \<in> set [([97], [1, 2])]. storable (\<lambda>name. True) r"
    by (simp add: storable_def open_trunc_def)
  have n: "stored_name [97] = [97]"
    by (simp add: stored_name_def)
  have z: "from_bytes [0, 0, 0, 0] = 0"
    by (simp add: from_bytes_def)
  show ?thesis
    using zero_name_length_rejected[OF s _ _ z, of
        "\<lparr>inp = \<lparr>unread = concat (map (\<lambda>(n, b). record_bytes n b) [([97], [1, 2])])
                           @ [0, 0, 0, 0] @ [0, 0, 0, 0, 0, 0, 0, 1, 9],
                  caps = [2]\<rparr>, disk = [], dec_reads = []\<rparr>"
        "[0, 0, 0, 0, 0, 0, 0, 1, 9]"] n
    by simp
qed

text \<open>
  C5: a record that declares more content than the stream holds (100 declared and 40
  supplied, say) ends the run with "unexpected EOF in file data". By then the decoder
  has created the output file and written to it exactly the bytes that were there; the
  file stays as it is, since the decoder never removes a file.
\<close>

theorem truncated_content_left_on_disk:
  assumes "\<forall>r \<in> set recs. storable writable r"
    and "unread (inp st) = concat (map (\<lambda>(n, b). record_bytes n b) recs)
           @ raw_len @ name_bytes @ raw_size @ body"
    and "length raw_len = 4"
    and "from_bytes raw_len = int (length name_bytes)"
    and "name_bytes \<noteq> []"
    and "utf8_decode name_bytes = Some name"
    and "open_trunc writable name = None"
    and "length raw_size = 8"
    and "int (length body) < from_bytes raw_size"
  shows "snd (extract_archive writable st) = Some UnexpectedEOFInFileData \<and>
         disk (fst (extract_archive writable st))
           = disk st @ map (\<lambda>(n, b). (stored_name n, b)) recs @ [(name, body)]"
proof -
  obtain st' where e: "extract_archive writable st = extract_archive writable st'"
    and u: "unread (inp st') = raw_len @ name_bytes @ raw_size @ body"
    and d: "disk st' = disk st @ map (\<lambda>(n, b). (stored_name n, b)) recs"
    using extract_archive_records[OF assms(1,2)] by blast
  from extract_record_on_record[OF u assms(3,4,5,6,8,7)] obtain fd lg where
    r: "extract_record writable st' =
          (\<lparr>inp = fd, disk = disk st' @ [(name, take (nat (from_bytes raw_size)) body)],
            dec_reads = lg\<rparr>,
           if nat (from_bytes raw_size) \<le> length body then Next
           else Died UnexpectedEOFInFileData)"
    by blast
  have "\<not> nat (from_bytes raw_size) \<le> length body" and "length body \<le> nat (from_bytes raw_size)"
    using assms(9) by linarith+
  with r have "extract_record writable st' =
          (\<lparr>inp = fd, disk = disk st' @ [(name, body)], dec_reads = lg\<rparr>,
           Died UnexpectedEOFInFileData)"
    by simp
  then show ?thesis
    using e d by (simp add: extract_archive_stops)
qed

theorem truncated_content_left_on_disk_witness:
  "snd (extract_archive (\<lambda>name. True)
          \<lparr>inp = \<lparr>unread = concat (map (\<lambda>(n, b). record_bytes n b) [])
                           @ [0, 0, 0, 1] @ [97] @ [0, 0, 0, 0, 0, 0, 0, 100]
                           @ replicate 40 7,
                  caps = [2, 9]\<rparr>,
           disk = [], dec_reads = []\<rparr>)
     = Some UnexpectedEOFInFileData \<and>
   disk (fst (extract_archive (\<lambda>name. True)
          \<lparr>inp = \<lparr>unread = concat (map (\<lambda>(n, b). record_bytes n b) [])
                           @ [0, 0, 0, 1] @ [97] @ [0, 0, 0, 0, 0, 0, 0, 100]
                           @ replicate 40 7,
                  caps = [2, 9]\<rparr>,
           disk = [], dec_reads = []\<rparr>))
     = [([97], replicate 40 7)] \<and>
   length (replicate 40 (7 :: byte)) = 40"
proof -
  have l: "from_bytes [0, 0, 0, 1] = int (length [97 :: byte])"
    by (simp add: from_bytes_def)
  have n: "utf8_decode [97] = Some [97]"
    by simp
  have w: "open_trunc (\<lambda>name. True) [97] = None"
    by (simp add: open_trunc_def)
  have z: "int (length (replicate 40 (7 :: byte))) < from_bytes [0, 0, 0, 0, 0, 0, 0, 100]"
    by (simp add: from_bytes_def)
  show ?thesis
    using truncated_content_left_on_disk[of "[]" "\<lambda>name. True"
        "\<lparr>inp = \<lparr>unread = concat (map (\<lambda>(n, b). record_bytes n b) [])
                           @ [0, 0, 0, 1] @ [97] @ [0, 0, 0, 0, 0, 0, 0, 100]
                           @ replicate 40 7,
                  caps = [2, 9]\<rparr>, disk = [], dec_reads = []\<rparr>"
        "[0, 0, 0, 1]" "[97]" "[0, 0, 0, 0, 0, 0, 0, 100]" "replicate 40 7" "[97]",
        OF _ _ _ l _ n w _ z]
    by simp
qed

subsection \<open>The size of the chunks\<close>

lemma copy_contents_bounded:
  "copy_contents fd n sink lg = (ok, fd', sink', lg') \<Longrightarrow>
     list_all bounded_read lg \<Longrightarrow> list_all bounded_read lg'"
proof (induction fd n sink lg arbitrary: ok fd' sink' lg' rule: copy_contents.induct)
  case (1 fd remaining sink lg)
  show ?case
  proof (cases "remaining > 0")
    case False
    with "1.prems" show ?thesis by (simp add: copy_contents.simps[of fd remaining])
  next
    case True
    obtain chunk fd1 where r: "os_read fd (min BUF_SIZE remaining) = (chunk, fd1)"
      by (cases "os_read fd (min BUF_SIZE remaining)")
    have "length chunk \<le> nat (min BUF_SIZE remaining)"
      using os_read_len[of fd "min BUF_SIZE remaining"] r by simp
    then have b: "bounded_read (remaining, min BUF_SIZE remaining, length chunk)"
      using True by (auto simp add: bounded_read_def BUF_SIZE_def)
    let ?lg = "lg @ [(remaining, min BUF_SIZE remaining, length chunk)]"
    have lg: "list_all bounded_read ?lg"
      using "1.prems"(2) b by simp
    show ?thesis
    proof (cases "chunk = []")
      case True
      with "1.prems"(1) r \<open>remaining > 0\<close> have "lg' = ?lg"
        by (simp add: copy_contents.simps[of fd remaining])
      with lg show ?thesis by simp
    next
      case False
      have "copy_contents fd1 (remaining - int (length chunk)) (sink @ chunk) ?lg
              = (ok, fd', sink', lg')"
        using "1.prems"(1) r True False by (simp add: copy_contents.simps[of fd remaining])
      from "1.IH"[OF True r[symmetric] False this lg] show ?thesis .
    qed
  qed
qed

lemma archive_file_bounded:
  assumes "list_all bounded_read (enc_reads s)"
  shows "list_all bounded_read (enc_reads (fst (archive_file fs name s)))"
proof -
  have "list_all bounded_read lg'"
    if "copy_contents fd n sink (enc_reads s) = (ok, fd', sink', lg')"
    for fd n sink ok fd' sink' lg'
    using copy_contents_bounded[OF that assms] .
  with assms show ?thesis
    by (simp add: archive_file_def hold_def release_def emit_def
             split: sum.split option.split prod.split)
qed

lemma create_archive_bounded:
  "list_all bounded_read (enc_reads s) \<Longrightarrow>
     list_all bounded_read (enc_reads (fst (create_archive fs filenames s)))"
proof (induction filenames arbitrary: s)
  case Nil
  then show ?case by simp
next
  case (Cons name filenames)
  obtain s' r where a: "archive_file fs name s = (s', r)"
    by (cases "archive_file fs name s")
  have "list_all bounded_read (enc_reads s')"
    using archive_file_bounded[OF Cons.prems, of fs name] a by simp
  with Cons.IH[of s'] a show ?case
    by (cases r) simp_all
qed

lemma extract_record_bounded:
  assumes "list_all bounded_read (dec_reads st)"
  shows "list_all bounded_read (dec_reads (fst (extract_record writable st)))"
proof -
  have "list_all bounded_read lg'"
    if "copy_contents fd n sink (dec_reads st) = (ok, fd', sink', lg')"
    for fd n sink ok fd' sink' lg'
    using copy_contents_bounded[OF that assms] .
  with assms show ?thesis
    by (simp add: extract_record_def split: option.split prod.split)
qed

lemma extract_archive_bounded:
  "list_all bounded_read (dec_reads st) \<Longrightarrow>
     list_all bounded_read (dec_reads (fst (extract_archive writable st)))"
proof (induction writable st rule: extract_archive.induct)
  case (1 writable st)
  obtain st' r where e: "extract_record writable st = (st', r)"
    by (cases "extract_record writable st")
  have b: "list_all bounded_read (dec_reads st')"
    using extract_record_bounded[OF "1.prems", of writable] e by simp
  show ?case
  proof (cases r)
    case Next
    with e "1.IH"[of st'] b show ?thesis
      by (simp add: extract_archive.simps[of writable st])
  next
    case Finished
    with e b show ?thesis
      by (simp add: extract_archive.simps[of writable st])
  next
    case (Died x)
    with e b show ?thesis
      by (simp add: extract_archive.simps[of writable st])
  qed
qed

text \<open>
  C9: in the content-transfer loop of the encoder and in that of the decoder, every
  read asks for \<open>min 4096 remaining\<close> bytes and gets no more, so no chunk in memory is
  longer than the buffer of 4096 bytes, however long the content of the record is.
\<close>

theorem chunks_bounded_by_buffer:
  "(list_all bounded_read (enc_reads s) \<longrightarrow>
      (\<forall>e \<in> set (enc_reads (fst (create_archive fs filenames s))).
         case e of (remaining, requested, got) \<Rightarrow>
           requested = min 4096 remaining \<and> int got \<le> requested \<and> got \<le> 4096)) \<and>
   (list_all bounded_read (dec_reads st) \<longrightarrow>
      (\<forall>e \<in> set (dec_reads (fst (extract_archive writable st))).
         case e of (remaining, requested, got) \<Rightarrow>
           requested = min 4096 remaining \<and> int got \<le> requested \<and> got \<le> 4096))"
proof -
  have enc: "list_all bounded_read (enc_reads s) \<longrightarrow>
      (\<forall>e \<in> set (enc_reads (fst (create_archive fs filenames s))). bounded_read e)"
    using create_archive_bounded[of s fs filenames] by (simp add: list_all_iff)
  have dec: "list_all bounded_read (dec_reads st) \<longrightarrow>
      (\<forall>e \<in> set (dec_reads (fst (extract_archive writable st))). bounded_read e)"
    using extract_archive_bounded[of st writable] by (simp add: list_all_iff)
  from enc dec show ?thesis
    unfolding bounded_read_def by (intro conjI)
qed

theorem chunks_bounded_by_buffer_witness:
  "list_all (\<lambda>e. case e of (remaining, requested, got) \<Rightarrow>
               requested = min 4096 remaining \<and> int got \<le> requested \<and> got \<le> 4096)
     (enc_reads (fst (create_archive
        [[97] \<mapsto> \<lparr>st_size = Some 5000, content = \<lparr>unread = replicate 5000 7, caps = []\<rparr>\<rparr>]
        [[97]] \<lparr>out = [], held = [], enc_reads = []\<rparr>))) \<and>
   list_all (\<lambda>e. case e of (remaining, requested, got) \<Rightarrow>
               requested = min 4096 remaining \<and> int got \<le> requested \<and> got \<le> 4096)
     (dec_reads (fst (extract_archive (\<lambda>name. True)
        \<lparr>inp = \<lparr>unread = [0, 0, 0, 1, 97, 0, 0, 0, 0, 0, 0, 0x13, 0x88] @ replicate 5000 7,
                caps = []\<rparr>,
         disk = [], dec_reads = []\<rparr>))) \<and>
   enc_reads (fst (create_archive
        [[97] \<mapsto> \<lparr>st_size = Some 5000, content = \<lparr>unread = replicate 5000 7, caps = []\<rparr>\<rparr>]
        [[97]] \<lparr>out = [], held = [], enc_reads = []\<rparr>))
     = [(5000, 4096, 4096), (904, 904, 904)] \<and>
   dec_reads (fst (extract_archive (\<lambda>name. True)
        \<lparr>inp = \<lparr>unread = [0, 0, 0, 1, 97, 0, 0, 0, 0, 0, 0, 0x13, 0x88] @ replicate 5000 7,
                caps = []\<rparr>,
         disk = [], dec_reads = []\<rparr>))
     = [(5000, 4096, 4096), (904, 904, 904)]"
proof -
  have e: "enc_reads (fst (create_archive
        [[97] \<mapsto> \<lparr>st_size = Some 5000, content = \<lparr>unread = replicate 5000 7, caps = []\<rparr>\<rparr>]
        [[97]] \<lparr>out = [], held = [], enc_reads = []\<rparr>))
     = [(5000, 4096, 4096), (904, 904, 904)]"
    by (simp add: archive_file_def open_rdonly_def hold_def release_def emit_def to_bytes_def
          utf8_char_def copy_contents.simps os_read_def BUF_SIZE_def)
  have d: "dec_reads (fst (extract_archive (\<lambda>name. True)
        \<lparr>inp = \<lparr>unread = [0, 0, 0, 1, 97, 0, 0, 0, 0, 0, 0, 0x13, 0x88] @ replicate 5000 7,
                caps = []\<rparr>,
         disk = [], dec_reads = []\<rparr>))
     = [(5000, 4096, 4096), (904, 904, 904)]"
    by (simp add: extract_archive_code extract_record_def read_exact_def
          read_exact_loop.simps from_bytes_def open_trunc_def copy_contents.simps os_read_def
          BUF_SIZE_def)
  have b: "list_all bounded_read []"
    by simp
  from chunks_bounded_by_buffer[of "\<lparr>out = [], held = [], enc_reads = []\<rparr>"
        "[[97] \<mapsto> \<lparr>st_size = Some 5000, content = \<lparr>unread = replicate 5000 7, caps = []\<rparr>\<rparr>]"
        "[[97]]"
        "\<lparr>inp = \<lparr>unread = [0, 0, 0, 1, 97, 0, 0, 0, 0, 0, 0, 0x13, 0x88] @ replicate 5000 7,
                caps = []\<rparr>, disk = [], dec_reads = []\<rparr>"
        "\<lambda>name. True"] b
  have t: "list_all (\<lambda>e. case e of (remaining, requested, got) \<Rightarrow>
               requested = min 4096 remaining \<and> int got \<le> requested \<and> got \<le> 4096)
     (enc_reads (fst (create_archive
        [[97] \<mapsto> \<lparr>st_size = Some 5000, content = \<lparr>unread = replicate 5000 7, caps = []\<rparr>\<rparr>]
        [[97]] \<lparr>out = [], held = [], enc_reads = []\<rparr>))) \<and>
   list_all (\<lambda>e. case e of (remaining, requested, got) \<Rightarrow>
               requested = min 4096 remaining \<and> int got \<le> requested \<and> got \<le> 4096)
     (dec_reads (fst (extract_archive (\<lambda>name. True)
        \<lparr>inp = \<lparr>unread = [0, 0, 0, 1, 97, 0, 0, 0, 0, 0, 0, 0x13, 0x88] @ replicate 5000 7,
                caps = []\<rparr>,
         disk = [], dec_reads = []\<rparr>)))"
    unfolding list_all_iff by simp
  show ?thesis
    by (rule conjI[OF conjunct1[OF t] conjI[OF conjunct2[OF t] conjI[OF e d]]])
qed

subsection \<open>A source file that ends early\<close>

lemma archive_file_copies:
  assumes o: "open_rdonly fs name = Inr f" and z: "st_size f = Some sz"
    and n: "utf8_encode name = Some nb" and l: "length nb < 2 ^ 32"
    and s0: "0 \<le> sz" and s1: "sz < 2 ^ 64"
    and c: "copy_contents (content f) sz
              (out s @ big_endian 4 (length nb) @ nb @ big_endian 8 (nat sz)) (enc_reads s)
            = (ok, fd', sink, lg)"
  shows "archive_file fs name s =
           (s\<lparr>out := sink, enc_reads := lg\<rparr>,
            if ok then None else Some (UnexpectedEOFReading name))"
proof -
  have t4: "to_bytes (int (length nb)) 4 = Some (big_endian 4 (length nb))"
    using l by (simp add: to_bytes_def)
  have t8: "to_bytes sz 8 = Some (big_endian 8 (nat sz))"
    using s0 s1 by (simp add: to_bytes_def)
  show ?thesis
    unfolding archive_file_def using o z n t4 t8 c
    by (simp add: hold_def release_def emit_def)
qed

text \<open>
  C6: the encoder has opened the file, fstat has given its size, and the header is
  written. If the file then holds fewer bytes than fstat said, a read of the
  content-transfer loop comes back empty while bytes are still to be transferred: the
  last read of the log delivered 0 bytes with \<open>remaining\<close> above 0. The run ends there
  with "unexpected EOF reading" and the name of the file, whatever files follow on the
  command line; every byte the file had has been written, and the source file is no
  longer held open when the encoder dies.
\<close>

theorem shrunken_source_aborts:
  assumes "open_rdonly fs name = Inr f" and "st_size f = Some sz"
    and "utf8_encode name = Some nb" and "length nb < 2 ^ 32" and "sz < 2 ^ 64"
    and "int (length (unread (content f))) < sz"
  shows "snd (archive_file fs name s) = Some (UnexpectedEOFReading name) \<and>
         held (fst (archive_file fs name s)) = held s \<and>
         out (fst (archive_file fs name s))
           = out s @ big_endian 4 (length nb) @ nb @ big_endian 8 (nat sz)
               @ unread (content f) \<and>
         (\<exists>remaining. 0 < remaining \<and>
            last (enc_reads (fst (archive_file fs name s)))
              = (remaining, min BUF_SIZE remaining, 0)) \<and>
         create_archive fs (name # filenames) s = archive_file fs name s"
proof -
  have s0: "0 \<le> sz"
    using assms(6) by linarith
  obtain ok fd' sink lg where c:
    "copy_contents (content f) sz
       (out s @ big_endian 4 (length nb) @ nb @ big_endian 8 (nat sz)) (enc_reads s)
     = (ok, fd', sink, lg)"
    by (cases "copy_contents (content f) sz
       (out s @ big_endian 4 (length nb) @ nb @ big_endian 8 (nat sz)) (enc_reads s)")
  have short: "\<not> nat sz \<le> length (unread (content f))"
    using assms(6) by linarith
  from copy_contents_spec[OF c] short have ok: "ok = False"
    and sink: "sink = out s @ big_endian 4 (length nb) @ nb @ big_endian 8 (nat sz)
                 @ unread (content f)"
    by simp_all
  from copy_contents_eof[OF c[unfolded ok]] obtain remaining where
    lg: "0 < remaining" "last lg = (remaining, min BUF_SIZE remaining, 0)"
    by blast
  have a: "archive_file fs name s =
             (s\<lparr>out := sink, enc_reads := lg\<rparr>, Some (UnexpectedEOFReading name))"
    using archive_file_copies[OF assms(1,2,3,4) s0 assms(5) c] ok by simp
  have "\<exists>remaining. 0 < remaining \<and>
            last (enc_reads (fst (archive_file fs name s)))
              = (remaining, min BUF_SIZE remaining, 0)"
    using a lg by auto
  moreover have "create_archive fs (name # filenames) s = archive_file fs name s"
    using a by simp
  moreover have "snd (archive_file fs name s) = Some (UnexpectedEOFReading name)"
    and "held (fst (archive_file fs name s)) = held s"
    and "out (fst (archive_file fs name s))
           = out s @ big_endian 4 (length nb) @ nb @ big_endian 8 (nat sz)
               @ unread (content f)"
    using a sink by simp_all
  ultimately show ?thesis
    by (intro conjI)
qed

theorem shrunken_source_aborts_witness:
  "snd (archive_file
          [[97] \<mapsto> \<lparr>st_size = Some 5, content = \<lparr>unread = [1, 2], caps = [0]\<rparr>\<rparr>] [97]
          \<lparr>out = [], held = [], enc_reads = []\<rparr>)
     = Some (UnexpectedEOFReading [97]) \<and>
   held (fst (archive_file
          [[97] \<mapsto> \<lparr>st_size = Some 5, content = \<lparr>unread = [1, 2], caps = [0]\<rparr>\<rparr>] [97]
          \<lparr>out = [], held = [], enc_reads = []\<rparr>)) = [] \<and>
   out (fst (archive_file
          [[97] \<mapsto> \<lparr>st_size = Some 5, content = \<lparr>unread = [1, 2], caps = [0]\<rparr>\<rparr>] [97]
          \<lparr>out = [], held = [], enc_reads = []\<rparr>))
     = big_endian 4 1 @ [97] @ big_endian 8 5 @ [1, 2] \<and>
   (\<exists>remaining. 0 < remaining \<and>
      last (enc_reads (fst (archive_file
          [[97] \<mapsto> \<lparr>st_size = Some 5, content = \<lparr>unread = [1, 2], caps = [0]\<rparr>\<rparr>] [97]
          \<lparr>out = [], held = [], enc_reads = []\<rparr>)))
        = (remaining, min BUF_SIZE remaining, 0)) \<and>
   create_archive
     [[97] \<mapsto> \<lparr>st_size = Some 5, content = \<lparr>unread = [1, 2], caps = [0]\<rparr>\<rparr>] [[97], [98]]
     \<lparr>out = [], held = [], enc_reads = []\<rparr>
     = archive_file
         [[97] \<mapsto> \<lparr>st_size = Some 5, content = \<lparr>unread = [1, 2], caps = [0]\<rparr>\<rparr>] [97]
         \<lparr>out = [], held = [], enc_reads = []\<rparr>"
proof -
  have o: "open_rdonly
             [[97] \<mapsto> \<lparr>st_size = Some 5, content = \<lparr>unread = [1, 2], caps = [0]\<rparr>\<rparr>] [97]
           = Inr \<lparr>st_size = Some 5, content = \<lparr>unread = [1, 2], caps = [0]\<rparr>\<rparr>"
    by (simp add: open_rdonly_def)
  have n: "utf8_encode [97] = Some [97]"
    by (simp add: utf8_char_def)
  show ?thesis
    using shrunken_source_aborts[OF o _ n, of 5
        "\<lparr>out = [], held = [], enc_reads = []\<rparr>" "[[98]]"]
    by simp
qed


subsection \<open>A file of no bytes\<close>

lemma extract_record_on_empty:
  assumes u: "unread (inp st) = raw_len @ name_bytes @ raw_size @ rest"
    and l4: "length raw_len = 4"
    and nl: "from_bytes raw_len = int (length name_bytes)"
    and ne: "name_bytes \<noteq> []"
    and nm: "utf8_decode name_bytes = Some name"
    and l8: "length raw_size = 8"
    and z: "from_bytes raw_size = 0"
    and op: "open_trunc writable name = None"
  shows "\<exists>fd. extract_record writable st =
           (\<lparr>inp = fd, disk = disk st @ [(name, [])], dec_reads = dec_reads st\<rparr>, Next) \<and>
           unread fd = rest"
proof -
  obtain fd1 where r1: "read_exact (inp st) 4 = (take (nat 4) (unread (inp st)), fd1)"
    and u1: "unread fd1 = drop (nat 4) (unread (inp st))"
    by (rule read_exact_cases)
  have t1: "take (nat 4) (unread (inp st)) = raw_len"
    and d1: "unread fd1 = name_bytes @ raw_size @ rest"
    using u l4 u1 by simp_all
  obtain fd2 where
    r2: "read_exact fd1 (from_bytes raw_len) = (take (nat (from_bytes raw_len)) (unread fd1), fd2)"
    and u2: "unread fd2 = drop (nat (from_bytes raw_len)) (unread fd1)"
    by (rule read_exact_cases)
  have t2: "take (nat (from_bytes raw_len)) (unread fd1) = name_bytes"
    and d2: "unread fd2 = raw_size @ rest"
    using d1 nl u2 by simp_all
  obtain fd3 where r3: "read_exact fd2 8 = (take (nat 8) (unread fd2), fd3)"
    and u3: "unread fd3 = drop (nat 8) (unread fd2)"
    by (rule read_exact_cases)
  have t3: "take (nat 8) (unread fd2) = raw_size" and d3: "unread fd3 = rest"
    using d2 l8 u3 by simp_all
  have r4: "copy_contents fd3 (from_bytes raw_size) [] (dec_reads st)
              = (True, fd3, [], dec_reads st)"
    unfolding z by (rule copy_contents_nothing)
  have pos: "\<not> from_bytes raw_len \<le> 0" using nl ne by simp
  have ne4: "raw_len \<noteq> []" using l4 by auto
  have "extract_record writable st =
           (\<lparr>inp = fd3, disk = disk st @ [(name, [])], dec_reads = dec_reads st\<rparr>, Next)"
    unfolding extract_record_def
    using r1 t1 l4 ne4 pos r2 t2 nl nm r3 t3 l8 op r4
    by simp
  with d3 show ?thesis
    by blast
qed

text \<open>
  C8: a source file for which fstat reports 0 bytes. The encoder writes the header
  with a content length of 0, eight zero bytes, and nothing after it: the
  content-transfer loop makes no read, so the log of reads is as it was, and the file is
  closed. The decoder, given these bytes with anything behind them, creates a file
  under the same name, writes nothing to it, makes no read for its content either, and
  goes on to what follows.
\<close>

theorem empty_file_record:
  assumes "open_rdonly fs name = Inr f" and "st_size f = Some 0"
    and "utf8_encode name = Some nb" and "length nb < 2 ^ 32"
    and "writable name"
    and "unread (inp st) = drop (length (out s)) (out (fst (archive_file fs name s))) @ rest"
  shows "archive_file fs name s
           = (s\<lparr>out := out s @ big_endian 4 (length nb) @ nb @ replicate 8 0\<rparr>, None) \<and>
         from_bytes (replicate 8 0) = 0 \<and>
         enc_reads (fst (archive_file fs name s)) = enc_reads s \<and>
         (\<exists>fd. extract_record writable st =
            (\<lparr>inp = fd, disk = disk st @ [(name, [])], dec_reads = dec_reads st\<rparr>, Next) \<and>
            unread fd = rest)"
proof -
  have z8: "big_endian 8 0 = replicate 8 0"
    by code_simp
  have c: "copy_contents (content f) 0
             (out s @ big_endian 4 (length nb) @ nb @ big_endian 8 (nat 0)) (enc_reads s)
           = (True, content f, out s @ big_endian 4 (length nb) @ nb @ big_endian 8 (nat 0),
              enc_reads s)"
    by (rule copy_contents_nothing)
  have a: "archive_file fs name s
             = (s\<lparr>out := out s @ big_endian 4 (length nb) @ nb @ replicate 8 0\<rparr>, None)"
    using archive_file_copies[OF assms(1,2,3,4) _ _ c] z8 by simp
  have f0: "from_bytes (replicate 8 0) = 0"
    using from_bytes_big_endian[of 8 0] z8 by simp
  have name: "name \<noteq> []" "0 \<notin> set name"
    using assms(1) by (simp_all add: open_rdonly_Inr)
  have op: "open_trunc writable name = None"
    using name assms(5) by (simp add: open_trunc_def)
  have ne: "nb \<noteq> []"
    using utf8_encode_nonempty[OF assms(3) name(1)] .
  have nl: "from_bytes (big_endian 4 (length nb)) = int (length nb)"
    using assms(4) by (simp add: from_bytes_big_endian)
  have u: "unread (inp st) = big_endian 4 (length nb) @ nb @ replicate 8 0 @ rest"
    using assms(6) a by simp
  have d: "\<exists>fd. extract_record writable st =
            (\<lparr>inp = fd, disk = disk st @ [(name, [])], dec_reads = dec_reads st\<rparr>, Next) \<and>
            unread fd = rest"
    using extract_record_on_empty[OF u length_big_endian nl ne utf8_decode_encode[OF assms(3)]
        _ f0 op]
    by simp
  have e: "enc_reads (fst (archive_file fs name s)) = enc_reads s"
    using a by simp
  from a f0 e d show ?thesis
    by (intro conjI)
qed

theorem empty_file_record_witness:
  "archive_file
     [[195, 169] \<mapsto> \<lparr>st_size = Some 0, content = \<lparr>unread = [], caps = []\<rparr>\<rparr>] [195, 169]
     \<lparr>out = [7], held = [], enc_reads = []\<rparr>
     = (\<lparr>out = [7] @ [0, 0, 0, 4] @ [195, 131, 194, 169] @ replicate 8 0, held = [],
         enc_reads = []\<rparr>, None) \<and>
   (\<exists>fd. extract_record (\<lambda>name. True)
      \<lparr>inp = \<lparr>unread = [0, 0, 0, 4, 195, 131, 194, 169, 0, 0, 0, 0, 0, 0, 0, 0, 5],
               caps = [1, 0]\<rparr>,
        disk = [], dec_reads = []\<rparr>
      = (\<lparr>inp = fd, disk = [([195, 169], [])], dec_reads = []\<rparr>, Next) \<and>
      unread fd = [5])"
proof -
  have o: "open_rdonly
             [[195, 169] \<mapsto> \<lparr>st_size = Some 0, content = \<lparr>unread = [], caps = []\<rparr>\<rparr>]
             [195, 169]
           = Inr \<lparr>st_size = Some 0, content = \<lparr>unread = [], caps = []\<rparr>\<rparr>"
    by (simp add: open_rdonly_def)
  have n: "utf8_encode [195, 169] = Some [195, 131, 194, 169]"
    by (simp add: utf8_char_def)
  have i: "unread (inp \<lparr>inp = \<lparr>unread = [0, 0, 0, 4, 195, 131, 194, 169,
                                        0, 0, 0, 0, 0, 0, 0, 0, 5],
                             caps = [1, 0]\<rparr>,
                       disk = [], dec_reads = []\<rparr>)
           = drop (length (out \<lparr>out = [7], held = [], enc_reads = []\<rparr>))
               (out (fst (archive_file
                  [[195, 169] \<mapsto> \<lparr>st_size = Some 0, content = \<lparr>unread = [], caps = []\<rparr>\<rparr>]
                  [195, 169] \<lparr>out = [7], held = [], enc_reads = []\<rparr>))) @ [5]"
    by code_simp
  have b: "big_endian 4 (Suc (Suc (Suc (Suc 0)))) = [0, 0, 0, 4]"
    by code_simp
  show ?thesis
    using empty_file_record[OF o _ n _ _ i, of "\<lambda>name. True"]
    by (simp add: b)
qed


subsection \<open>The bytes of one record\<close>

text \<open>
  C2: the encoder has opened the file, fstat has given a size that fits 8 bytes, and
  the name encodes to fewer than \<open>2 ^ 32\<close> bytes. What it then writes for the file is,
  in this order: 4 bytes that read as the number of bytes of the encoded name, most
  significant byte first; the encoded name; 8 bytes that read as the size fstat gave;
  and the first bytes of the file, as many as that size where the file has them. The
  file is done without error exactly when that many content bytes were written; the
  only other way out is the "unexpected EOF reading" of a file that ended early.
\<close>

theorem record_emitted:
  assumes "open_rdonly fs name = Inr f" and "st_size f = Some sz"
    and "utf8_encode name = Some nb" and "length nb < 2 ^ 32"
    and "0 \<le> sz" and "sz < 2 ^ 64"
  shows "out (fst (archive_file fs name s))
           = out s @ big_endian 4 (length nb) @ nb @ big_endian 8 (nat sz)
               @ take (nat sz) (unread (content f)) \<and>
         length (big_endian 4 (length nb)) = 4 \<and>
         from_bytes (big_endian 4 (length nb)) = int (length nb) \<and>
         length (big_endian 8 (nat sz)) = 8 \<and>
         from_bytes (big_endian 8 (nat sz)) = sz \<and>
         (snd (archive_file fs name s) = None)
           = (int (length (take (nat sz) (unread (content f)))) = sz) \<and>
         (snd (archive_file fs name s) = Some (UnexpectedEOFReading name))
           = (int (length (take (nat sz) (unread (content f)))) < sz)"
proof -
  obtain lg where a: "archive_file fs name s =
           (s\<lparr>out := out s @ big_endian 4 (length nb) @ nb @ big_endian 8 (nat sz)
                        @ take (nat sz) (unread (content f)),
               enc_reads := lg\<rparr>,
            if nat sz \<le> length (unread (content f)) then None
            else Some (UnexpectedEOFReading name))"
    using archive_file_emits[OF assms] by blast
  have o: "out (fst (archive_file fs name s))
           = out s @ big_endian 4 (length nb) @ nb @ big_endian 8 (nat sz)
               @ take (nat sz) (unread (content f))"
    using a by simp
  have f4: "from_bytes (big_endian 4 (length nb)) = int (length nb)"
    using assms(4) by (simp add: from_bytes_big_endian)
  have f8: "from_bytes (big_endian 8 (nat sz)) = sz"
    using assms(5,6) by (simp add: from_bytes_big_endian)
  have l: "(int (length (take (nat sz) (unread (content f)))) = sz)
             = (nat sz \<le> length (unread (content f)))"
    using assms(5) by (simp add: min_def) linarith
  have l': "(int (length (take (nat sz) (unread (content f)))) < sz)
             = (\<not> nat sz \<le> length (unread (content f)))"
    using assms(5) by (simp add: min_def) linarith
  have r: "(snd (archive_file fs name s) = None)
           = (int (length (take (nat sz) (unread (content f)))) = sz)"
    unfolding l using a by simp
  have r': "(snd (archive_file fs name s) = Some (UnexpectedEOFReading name))
           = (int (length (take (nat sz) (unread (content f)))) < sz)"
    unfolding l' using a by simp
  from o length_big_endian f4 length_big_endian f8 r r' show ?thesis
    by (intro conjI)
qed

theorem record_emitted_witness:
  "out (fst (archive_file
          [[97, 8364] \<mapsto> \<lparr>st_size = Some 3, content = \<lparr>unread = [1, 2, 3, 4], caps = [0]\<rparr>\<rparr>]
          [97, 8364] \<lparr>out = [], held = [], enc_reads = []\<rparr>))
     = [0, 0, 0, 4] @ [97, 226, 130, 172] @ [0, 0, 0, 0, 0, 0, 0, 3] @ [1, 2, 3] \<and>
   from_bytes [0, 0, 0, 4] = 4 \<and>
   from_bytes [0, 0, 0, 0, 0, 0, 0, 3] = 3 \<and>
   snd (archive_file
          [[97, 8364] \<mapsto> \<lparr>st_size = Some 3, content = \<lparr>unread = [1, 2, 3, 4], caps = [0]\<rparr>\<rparr>]
          [97, 8364] \<lparr>out = [], held = [], enc_reads = []\<rparr>) = None"
proof -
  have o: "open_rdonly
             [[97, 8364] \<mapsto> \<lparr>st_size = Some 3,
                                content = \<lparr>unread = [1, 2, 3, 4], caps = [0]\<rparr>\<rparr>]
             [97, 8364]
           = Inr \<lparr>st_size = Some 3, content = \<lparr>unread = [1, 2, 3, 4], caps = [0]\<rparr>\<rparr>"
    by (simp add: open_rdonly_def)
  have n: "utf8_encode [97, 8364] = Some [97, 226, 130, 172]"
    by (simp add: utf8_char_def)
  have b4: "big_endian 4 (Suc (Suc (Suc (Suc 0)))) = [0, 0, 0, 4]"
    by code_simp
  have b8: "big_endian 8 3 = [0, 0, 0, 0, 0, 0, 0, 3]"
    by code_simp
  show ?thesis
    using record_emitted[OF o _ n, of 3 "\<lparr>out = [], held = [], enc_reads = []\<rparr>"]
    by (simp add: b4 b8)
qed


subsection \<open>The round trip\<close>

lemma archive_file_archivable:
  assumes "archivable fs name"
  shows "\<exists>lg. archive_file fs name s =
           (s\<lparr>out := out s @ record_bytes (encoded_name name) (contents_of fs name),
               enc_reads := lg\<rparr>, None)"
proof -
  from assms obtain f nb where f: "fs name = Some f" and nb: "utf8_encode name = Some nb"
    and name: "name \<noteq> []" "0 \<notin> set name"
    and z: "st_size f = Some (int (length (unread (content f))))"
    and l64: "length (unread (content f)) < 2 ^ 64"
    and l32: "length nb < 2 ^ 32"
    by (auto simp: archivable_def split: option.splits)
  have o: "open_rdonly fs name = Inr f"
    using f name by (simp add: open_rdonly_Inr)
  have s1: "int (length (unread (content f))) < 2 ^ 64"
    using l64 by (metis of_nat_less_iff of_nat_numeral of_nat_power)
  from archive_file_emits[OF o z nb l32 _ s1, of s] show ?thesis
    by (simp add: record_bytes_def encoded_name_def contents_of_def f nb)
qed

lemma create_archive_records:
  assumes "\<forall>name \<in> set names. archivable fs name"
  shows "snd (create_archive fs names s) = None \<and>
         out (fst (create_archive fs names s))
           = out s @ concat (map (\<lambda>name. record_bytes (encoded_name name) (contents_of fs name))
                               names)"
  using assms
proof (induction names arbitrary: s)
  case Nil
  show ?case by simp
next
  case (Cons name names)
  have "archivable fs name"
    using Cons.prems by simp
  from archive_file_archivable[OF this, of s] obtain lg where
    a: "archive_file fs name s =
          (s\<lparr>out := out s @ record_bytes (encoded_name name) (contents_of fs name),
              enc_reads := lg\<rparr>, None)"
    by blast
  let ?s1 = "s\<lparr>out := out s @ record_bytes (encoded_name name) (contents_of fs name),
               enc_reads := lg\<rparr>"
  have c: "create_archive fs (name # names) s = create_archive fs names ?s1"
    using a by simp
  have "\<forall>name \<in> set names. archivable fs name"
    using Cons.prems by simp
  from Cons.IH[OF this, of ?s1] show ?case
    unfolding c by simp
qed

lemma archivable_storable:
  assumes "archivable fs name" and "writable name"
  shows "storable writable (encoded_name name, contents_of fs name) \<and>
         stored_name (encoded_name name) = name"
proof -
  from assms(1) obtain f nb where f: "fs name = Some f" and nb: "utf8_encode name = Some nb"
    and name: "name \<noteq> []" "0 \<notin> set name"
    and l64: "length (unread (content f)) < 2 ^ 64"
    and l32: "length nb < 2 ^ 32"
    by (auto simp: archivable_def split: option.splits)
  have d: "utf8_decode nb = Some name"
    using nb by (rule utf8_decode_encode)
  have ne: "nb \<noteq> []"
    using utf8_encode_nonempty[OF nb name(1)] .
  have op: "open_trunc writable name = None"
    using name assms(2) by (simp add: open_trunc_def)
  show ?thesis
    using d ne op l64 l32
    by (simp add: storable_def stored_name_def encoded_name_def contents_of_def f nb)
qed

text \<open>
  C1: the files named on the command line can be archived, and the decoder may create
  a file under each of the names. Then the encoder ends without error, and the decoder,
  given the bytes the encoder wrote and whatever the sizes of the reads on either side,
  ends without error too, having created one file for each name, in the order of the
  command line, each with the contents of the file of that name.
\<close>

theorem round_trip:
  assumes "\<forall>name \<in> set names. archivable fs name \<and> writable name"
    and "out s = []"
    and "unread (inp st) = out (fst (create_archive fs names s))"
  shows "snd (create_archive fs names s) = None \<and>
         snd (extract_archive writable st) = None \<and>
         disk (fst (extract_archive writable st))
           = disk st @ map (\<lambda>name. (name, contents_of fs name)) names"
proof -
  let ?recs = "map (\<lambda>name. (encoded_name name, contents_of fs name)) names"
  have a: "\<forall>name \<in> set names. archivable fs name"
    using assms(1) by simp
  have enc: "snd (create_archive fs names s) = None"
    and o: "out (fst (create_archive fs names s))
              = concat (map (\<lambda>name. record_bytes (encoded_name name) (contents_of fs name))
                          names)"
    using create_archive_records[OF a, of s] assms(2) by simp_all
  have st: "\<forall>r \<in> set ?recs. storable writable r"
    using assms(1) archivable_storable[of fs _ writable] by auto
  have u: "unread (inp st) = concat (map (\<lambda>(n, b). record_bytes n b) ?recs) @ []"
    using assms(3) o by (simp add: comp_def)
  from extract_archive_records[OF st u] obtain st' where
    e: "extract_archive writable st = extract_archive writable st'"
    and u': "unread (inp st') = []"
    and d: "disk st' = disk st @ map (\<lambda>(n, b). (stored_name n, b)) ?recs"
    by blast
  have "map (\<lambda>(n, b). (stored_name n, b)) ?recs
          = map (\<lambda>name. (name, contents_of fs name)) names"
    using assms(1) archivable_storable[of fs _ writable] by (simp add: comp_def)
  with d have d': "disk st' = disk st @ map (\<lambda>name. (name, contents_of fs name)) names"
    by simp
  from extract_archive_finished[OF u', of writable] e d' enc show ?thesis
    by simp
qed

theorem round_trip_witness:
  "snd (create_archive
          [[97] \<mapsto> \<lparr>st_size = Some 3, content = \<lparr>unread = [1, 2, 3], caps = [0]\<rparr>\<rparr>,
           [233] \<mapsto> \<lparr>st_size = Some 0, content = \<lparr>unread = [], caps = []\<rparr>\<rparr>]
          [[233], [97], [233]] \<lparr>out = [], held = [], enc_reads = []\<rparr>) = None \<and>
   snd (extract_archive (\<lambda>name. True)
          \<lparr>inp = \<lparr>unread = [0, 0, 0, 2, 195, 169, 0, 0, 0, 0, 0, 0, 0, 0,
                             0, 0, 0, 1, 97, 0, 0, 0, 0, 0, 0, 0, 3, 1, 2, 3,
                             0, 0, 0, 2, 195, 169, 0, 0, 0, 0, 0, 0, 0, 0],
                   caps = [2, 0]\<rparr>,
            disk = [], dec_reads = []\<rparr>) = None \<and>
   disk (fst (extract_archive (\<lambda>name. True)
          \<lparr>inp = \<lparr>unread = [0, 0, 0, 2, 195, 169, 0, 0, 0, 0, 0, 0, 0, 0,
                             0, 0, 0, 1, 97, 0, 0, 0, 0, 0, 0, 0, 3, 1, 2, 3,
                             0, 0, 0, 2, 195, 169, 0, 0, 0, 0, 0, 0, 0, 0],
                   caps = [2, 0]\<rparr>,
            disk = [], dec_reads = []\<rparr>))
     = [([233], []), ([97], [1, 2, 3]), ([233], [])]"
proof -
  have a: "\<forall>name \<in> set [[233], [97], [233]].
             archivable
               [[97] \<mapsto> \<lparr>st_size = Some 3, content = \<lparr>unread = [1, 2, 3], caps = [0]\<rparr>\<rparr>,
                [233] \<mapsto> \<lparr>st_size = Some 0, content = \<lparr>unread = [], caps = []\<rparr>\<rparr>] name
             \<and> (\<lambda>name. True) name"
    by (simp add: archivable_def utf8_char_def)
  have i: "unread (inp \<lparr>inp = \<lparr>unread = [0, 0, 0, 2, 195, 169, 0, 0, 0, 0, 0, 0, 0, 0,
                             0, 0, 0, 1, 97, 0, 0, 0, 0, 0, 0, 0, 3, 1, 2, 3,
                             0, 0, 0, 2, 195, 169, 0, 0, 0, 0, 0, 0, 0, 0],
                   caps = [2, 0]\<rparr>,
            disk = [], dec_reads = []\<rparr>)
           = out (fst (create_archive
               [[97] \<mapsto> \<lparr>st_size = Some 3, content = \<lparr>unread = [1, 2, 3], caps = [0]\<rparr>\<rparr>,
                [233] \<mapsto> \<lparr>st_size = Some 0, content = \<lparr>unread = [], caps = []\<rparr>\<rparr>]
               [[233], [97], [233]] \<lparr>out = [], held = [], enc_reads = []\<rparr>))"
    by code_simp
  show ?thesis
    using round_trip[OF a _ i]
    by (simp add: contents_of_def)
qed


end
